theory Spec2Isabelle
  imports Complex_Main "HOL-Library.Word" "HOL-Library.Log_Nat"
begin

unbundle bit_operations_syntax

section \<open>JavaScript strings\<close>

text \<open>
  A JavaScript string is a sequence of UTF-16 code units. \<open>js\<close> embeds an ASCII literal;
  code units outside ASCII are written as numbers (\<open>0xD7\<close> is the multiplication sign,
  \<open>0xF7\<close> the division sign).
\<close>

type_synonym jsstring = "16 word list"

definition js :: "string \<Rightarrow> jsstring" where
  "js s = map of_char s"

definition is_digit :: "16 word \<Rightarrow> bool" where
  "is_digit c = (0x30 \<le> c \<and> c \<le> 0x39)"

definition digit_val :: "16 word \<Rightarrow> nat" where
  "digit_val c = unat c - 48"

definition digit_char :: "nat \<Rightarrow> 16 word" where
  "digit_char n = of_nat (48 + n)"

text \<open>The value of a run of decimal digits, most significant first.\<close>

definition digits_val :: "jsstring \<Rightarrow> nat" where
  "digits_val ds = foldl (\<lambda>a c. 10 * a + digit_val c) 0 ds"

text \<open>The decimal representation of a natural number, without leading zeros.\<close>

fun digits_of :: "nat \<Rightarrow> jsstring" where
  "digits_of n = (if n < 10 then [digit_char n] else digits_of (n div 10) @ [digit_char (n mod 10)])"

declare digits_of.simps [simp del]

section \<open>JavaScript numbers: IEEE 754 binary64\<close>

text \<open>
  A finite double is modelled by the rational it denotes; \<open>Fin 0\<close> is \<open>+0\<close> and
  \<open>NZero\<close> is \<open>-0\<close>. Every operation computes the exact rational result and rounds it
  with \<open>round64\<close> (round to nearest, ties to even, gradual underflow, overflow to
  infinity).
\<close>

datatype num = NaN | PInf | NInf | NZero | Fin rat

text \<open>\<open>ilog2 a\<close> is the integer \<open>e\<close> with \<open>2^e \<le> a < 2^(e+1)\<close>, for \<open>a > 0\<close>.\<close>

definition ilog2 :: "rat \<Rightarrow> int" where
  "ilog2 a = (let p = fst (quotient_of a); d = snd (quotient_of a); k = bitlen p - bitlen d
              in if 2 powi k \<le> a then k else k - 1)"

definition round_half_even :: "rat \<Rightarrow> int" where
  "round_half_even q =
     (let f = \<lfloor>q\<rfloor>; r = q - of_int f
      in if r < 1 / 2 then f else if 1 / 2 < r then f + 1 else if even f then f else f + 1)"

definition round64 :: "rat \<Rightarrow> num" where
  "round64 q =
     (if q = 0 then Fin 0
      else
        let a = \<bar>q\<bar>;
            e = max (ilog2 a) (- 1022);
            ulp = 2 powi (e - 52);
            r = of_int (round_half_even (a / ulp)) * ulp
        in if 2 ^ 1024 \<le> r then (if q < 0 then NInf else PInf)
           else if r = 0 then (if q < 0 then NZero else Fin 0)
           else Fin (if q < 0 then - r else r))"

definition isNaN :: "num \<Rightarrow> bool" where
  "isNaN v = (v = NaN)"

definition is_zero :: "num \<Rightarrow> bool" where
  "is_zero v = (v = NZero \<or> v = Fin 0)"

definition is_inf :: "num \<Rightarrow> bool" where
  "is_inf v = (v = PInf \<or> v = NInf)"

definition is_neg :: "num \<Rightarrow> bool" where
  "is_neg v = (case v of NInf \<Rightarrow> True | NZero \<Rightarrow> True | Fin x \<Rightarrow> x < 0 | _ \<Rightarrow> False)"

definition num_val :: "num \<Rightarrow> rat" where
  "num_val v = (case v of Fin x \<Rightarrow> x | _ \<Rightarrow> 0)"

definition signed_inf :: "bool \<Rightarrow> num" where
  "signed_inf neg = (if neg then NInf else PInf)"

definition signed_zero :: "bool \<Rightarrow> num" where
  "signed_zero neg = (if neg then NZero else Fin 0)"

definition num_neg :: "num \<Rightarrow> num" where
  "num_neg v = (case v of NaN \<Rightarrow> NaN | PInf \<Rightarrow> NInf | NInf \<Rightarrow> PInf | NZero \<Rightarrow> Fin 0
                | Fin x \<Rightarrow> if x = 0 then NZero else Fin (- x))"

text \<open>The operators \<open>+\<close>, \<open>-\<close>, \<open>*\<close> and \<open>/\<close> on numbers.\<close>

definition num_add :: "num \<Rightarrow> num \<Rightarrow> num" where
  "num_add x y =
     (if x = NaN \<or> y = NaN then NaN
      else if is_inf x \<and> is_inf y then (if x = y then x else NaN)
      else if is_inf x then x
      else if is_inf y then y
      else if is_zero x \<and> is_zero y then signed_zero (is_neg x \<and> is_neg y)
      else if num_val x + num_val y = 0 then Fin 0
      else round64 (num_val x + num_val y))"

definition num_sub :: "num \<Rightarrow> num \<Rightarrow> num" where
  "num_sub x y = num_add x (num_neg y)"

definition num_mul :: "num \<Rightarrow> num \<Rightarrow> num" where
  "num_mul x y =
     (if x = NaN \<or> y = NaN then NaN
      else if is_inf x \<or> is_inf y then
        (if is_zero x \<or> is_zero y then NaN else signed_inf (is_neg x \<noteq> is_neg y))
      else if is_zero x \<or> is_zero y then signed_zero (is_neg x \<noteq> is_neg y)
      else round64 (num_val x * num_val y))"

definition num_div :: "num \<Rightarrow> num \<Rightarrow> num" where
  "num_div x y =
     (if x = NaN \<or> y = NaN then NaN
      else if is_inf x then (if is_inf y then NaN else signed_inf (is_neg x \<noteq> is_neg y))
      else if is_inf y then signed_zero (is_neg x \<noteq> is_neg y)
      else if is_zero y then (if is_zero x then NaN else signed_inf (is_neg x \<noteq> is_neg y))
      else if is_zero x then signed_zero (is_neg x \<noteq> is_neg y)
      else round64 (num_val x / num_val y))"

subsection \<open>\<open>parseFloat\<close>\<close>

text \<open>
  White space and line terminators skipped by \<open>parseFloat\<close> before the literal.
\<close>

definition is_white :: "16 word \<Rightarrow> bool" where
  "is_white c = (c \<in> {0x09, 0x0A, 0x0B, 0x0C, 0x0D, 0x20, 0xA0, 0x1680, 0x2028, 0x2029,
                       0x202F, 0x205F, 0x3000, 0xFEFF} \<or> (0x2000 \<le> c \<and> c \<le> 0x200A))"

text \<open>
  The exponent part \<open>e\<close>, optional sign, digits: the exponent and the rest of the input
  when the part is complete, and no exponent with the input untouched otherwise.
\<close>

definition exponent_part :: "jsstring \<Rightarrow> int \<times> jsstring" where
  "exponent_part s =
     (case s of
        [] \<Rightarrow> (0, s)
      | c # t \<Rightarrow>
          if c = 0x65 \<or> c = 0x45 then
            (let neg = (case t of [] \<Rightarrow> False | d # _ \<Rightarrow> d = 0x2D);
                 u = (case t of [] \<Rightarrow> [] | d # t' \<Rightarrow> if d = 0x2B \<or> d = 0x2D then t' else t);
                 ds = takeWhile is_digit u
             in if ds = [] then (0, s)
                else ((if neg then - int (digits_val ds) else int (digits_val ds)),
                      dropWhile is_digit u))
          else (0, s))"

text \<open>
  The longest prefix that is an unsigned decimal literal: digits with an optional
  fraction, or a point followed by digits, then an optional exponent part. The result is
  the mathematical value of the prefix and the rest of the input.
\<close>

definition unsigned_decimal :: "jsstring \<Rightarrow> (rat \<times> jsstring) option" where
  "unsigned_decimal s =
     (let ip = takeWhile is_digit s;
          r1 = dropWhile is_digit s;
          point = (case r1 of [] \<Rightarrow> False | c # _ \<Rightarrow> c = 0x2E);
          fp = (if point then takeWhile is_digit (tl r1) else []);
          r2 = (if point then dropWhile is_digit (tl r1) else r1)
      in if ip = [] \<and> fp = [] then None
         else
           let m = of_nat (digits_val ip) + of_nat (digits_val fp) / 10 ^ length fp;
               ex = exponent_part r2
           in Some (m * 10 powi (fst ex), snd ex))"

definition parseFloat :: "jsstring \<Rightarrow> num" where
  "parseFloat str =
     (let t = dropWhile is_white str;
          neg = (case t of [] \<Rightarrow> False | c # _ \<Rightarrow> c = 0x2D);
          u = (case t of [] \<Rightarrow> [] | c # t' \<Rightarrow> if c = 0x2B \<or> c = 0x2D then t' else t)
      in if take 8 u = js ''Infinity'' then signed_inf neg
         else
           (case unsigned_decimal u of
              None \<Rightarrow> NaN
            | Some (m, _) \<Rightarrow> if neg then num_neg (round64 m) else round64 m))"

subsection \<open>\<open>Number.prototype.toString\<close>\<close>

text \<open>
  \<open>decimal_exponent x\<close> is the integer \<open>n\<close> with \<open>10^(n-1) \<le> x < 10^n\<close>, for \<open>x > 0\<close>.
\<close>

definition decimal_exponent :: "rat \<Rightarrow> int" where
  "decimal_exponent x =
     (if 1 \<le> x then int (length (digits_of (nat \<lfloor>x\<rfloor>)))
      else
        let d = int (length (digits_of (nat \<lfloor>1 / x\<rfloor>)))
        in if x = 10 powi (1 - d) then 2 - d else 1 - d)"

text \<open>
  The decimal representations \<open>s * 10^(n-k)\<close> with exactly \<open>k\<close> digits that round to the
  double \<open>x\<close>. Only the two multiples of \<open>10^(n-k)\<close> around \<open>x\<close> can round to it, for the
  exponent of \<open>x\<close> and the next one.
\<close>

definition digit_candidates :: "rat \<Rightarrow> nat \<Rightarrow> (int \<times> int) list" where
  "digit_candidates x k =
     (let m = decimal_exponent x
      in filter (\<lambda>(n, s). 10 ^ (k - 1) \<le> s \<and> s < 10 ^ k \<and>
                           round64 (of_int s * 10 powi (n - int k)) = Fin x)
           (concat (map (\<lambda>n. let f = \<lfloor>x / 10 powi (n - int k)\<rfloor> in [(n, f), (n, f + 1)])
                        [m, m + 1])))"

text \<open>Among several candidates the closest to \<open>x\<close> is taken, the even one on a tie.\<close>

definition closer :: "rat \<Rightarrow> nat \<Rightarrow> int \<times> int \<Rightarrow> int \<times> int \<Rightarrow> int \<times> int" where
  "closer x k a b =
     (let da = \<bar>of_int (snd a) * 10 powi (fst a - int k) - x\<bar>;
          db = \<bar>of_int (snd b) * 10 powi (fst b - int k) - x\<bar>
      in if db < da \<or> (db = da \<and> even (snd b) \<and> odd (snd a)) then b else a)"

text \<open>
  The shortest digit string: the least \<open>k\<close> with a candidate. Seventeen digits identify
  every double, so the search stops there.
\<close>

definition shortest_digits :: "rat \<Rightarrow> int \<times> nat \<times> int" where
  "shortest_digits x =
     (case List.find (\<lambda>k. digit_candidates x k \<noteq> []) [1..<18] of
        Some k \<Rightarrow>
          (let cs = digit_candidates x k; b = foldl (closer x k) (hd cs) (tl cs)
           in (fst b, k, snd b))
      | None \<Rightarrow> (decimal_exponent x, 17, \<lfloor>x / 10 powi (decimal_exponent x - 17)\<rfloor>))"

definition positive_toString :: "rat \<Rightarrow> jsstring" where
  "positive_toString x =
     (let r = shortest_digits x; n = fst r; k = fst (snd r); ds = digits_of (nat (snd (snd r)))
      in if int k \<le> n \<and> n \<le> 21 then ds @ replicate (nat (n - int k)) 0x30
         else if 0 < n \<and> n \<le> 21 then take (nat n) ds @ js ''.'' @ drop (nat n) ds
         else if - 6 < n \<and> n \<le> 0 then js ''0.'' @ replicate (nat (- n)) 0x30 @ ds
         else
           let e = n - 1;
               es = (if e < 0 then js ''-'' else js ''+'') @ digits_of (nat \<bar>e\<bar>)
           in if k = 1 then ds @ js ''e'' @ es
              else take 1 ds @ js ''.'' @ drop 1 ds @ js ''e'' @ es)"

definition Number_toString :: "num \<Rightarrow> jsstring" where
  "Number_toString v =
     (case v of
        NaN \<Rightarrow> js ''NaN''
      | PInf \<Rightarrow> js ''Infinity''
      | NInf \<Rightarrow> js ''-Infinity''
      | NZero \<Rightarrow> js ''0''
      | Fin x \<Rightarrow>
          if x = 0 then js ''0''
          else if x < 0 then js ''-'' @ positive_toString (- x)
          else positive_toString x)"

subsection \<open>\<open>Number.prototype.toFixed\<close>\<close>

text \<open>
  The digits of the integer \<open>n\<close> closest to \<open>a * 10^f\<close> (the larger on a tie), padded
  with zeros to at least \<open>f + 1\<close> digits, with the point before the last \<open>f\<close>.
\<close>

definition fixed_text :: "nat \<Rightarrow> rat \<Rightarrow> jsstring" where
  "fixed_text f a =
     (let n = nat \<lfloor>a * 10 ^ f + 1 / 2\<rfloor>;
          m = digits_of n;
          m' = (if f \<noteq> 0 \<and> length m \<le> f then replicate (f + 1 - length m) 0x30 @ m else m)
      in if f \<noteq> 0 then take (length m' - f) m' @ js ''.'' @ drop (length m' - f) m' else m')"

definition toFixed :: "nat \<Rightarrow> num \<Rightarrow> jsstring" where
  "toFixed f v =
     (case v of
        Fin x \<Rightarrow>
          (let sg = (if x < 0 then js ''-'' else []); a = \<bar>x\<bar>
           in if 10 ^ 21 \<le> a then sg @ Number_toString (Fin a) else sg @ fixed_text f a)
      | NZero \<Rightarrow> fixed_text f 0
      | _ \<Rightarrow> Number_toString v)"

section \<open>The calculator\<close>

text \<open>
  The object \<open>Calculator\<close> of \<open>tema.js\<close>: its four data fields, with \<open>null\<close> as
  \<open>None\<close>. Each method takes the object and returns it updated.
\<close>

record calculator =
  currentOperand :: jsstring
  previousOperand :: jsstring
  operation :: "jsstring option"
  shouldResetScreen :: bool

definition Calculator :: calculator where
  "Calculator = \<lparr>currentOperand = js ''0'', previousOperand = [], operation = None,
                  shouldResetScreen = False\<rparr>"

definition div_error :: jsstring where
  "div_error = js ''Error: Div/0''"

text \<open>\<open>s.includes('.')\<close>\<close>

definition includes_point :: "jsstring \<Rightarrow> bool" where
  "includes_point s = (0x2E \<in> set s)"

definition appendNumber :: "jsstring \<Rightarrow> calculator \<Rightarrow> calculator" where
  "appendNumber number c =
     (let c1 = (if shouldResetScreen c
                then c\<lparr>currentOperand := [], shouldResetScreen := False\<rparr> else c)
      in if number = js ''.'' \<and> includes_point (currentOperand c1) then c1
         else if currentOperand c1 = js ''0'' \<and> number \<noteq> js ''.''
         then c1\<lparr>currentOperand := number\<rparr>
         else c1\<lparr>currentOperand := currentOperand c1 @ number\<rparr>)"

text \<open>The local variable \<open>computation\<close> of \<open>compute\<close> holds a number or a string.\<close>

datatype computation = Number num | Text jsstring

text \<open>
  The \<open>switch\<close> of \<open>compute\<close>; \<open>None\<close> is the \<open>default\<close> branch, which returns.
\<close>

definition switch_operation :: "jsstring option \<Rightarrow> num \<Rightarrow> num \<Rightarrow> computation option" where
  "switch_operation opr prev current =
     (if opr = Some (js ''+'') then Some (Number (num_add prev current))
      else if opr = Some (js ''-'') then Some (Number (num_sub prev current))
      else if opr = Some [0xD7] \<or> opr = Some (js ''*'')
      then Some (Number (num_mul prev current))
      else if opr = Some [0xF7] \<or> opr = Some (js ''/'')
      then Some (if is_zero current then Text div_error else Number (num_div prev current))
      else None)"

definition compute :: "calculator \<Rightarrow> calculator" where
  "compute c =
     (let prev = parseFloat (previousOperand c);
          current = parseFloat (currentOperand c)
      in if isNaN prev \<or> isNaN current then c
         else
           (case switch_operation (operation c) prev current of
              None \<Rightarrow> c
            | Some computation \<Rightarrow>
                let limited = (case computation of
                                 Number n \<Rightarrow> Number (parseFloat (toFixed 10 n))
                               | Text t \<Rightarrow> Text t)
                in c\<lparr>currentOperand := (case limited of
                                           Number n \<Rightarrow> Number_toString n
                                         | Text t \<Rightarrow> t),
                      operation := None,
                      previousOperand := [],
                      shouldResetScreen := True\<rparr>))"

definition chooseOperation :: "jsstring \<Rightarrow> calculator \<Rightarrow> calculator" where
  "chooseOperation opr c =
     (if currentOperand c = [] then c
      else
        let c1 = (if previousOperand c \<noteq> [] then compute c else c)
        in c1\<lparr>operation := Some opr, previousOperand := currentOperand c1,
               currentOperand := []\<rparr>)"

definition clear :: "calculator \<Rightarrow> calculator" where
  "clear c = c\<lparr>currentOperand := js ''0'', previousOperand := [], operation := None\<rparr>"

definition delete :: "calculator \<Rightarrow> calculator" where
  "delete c =
     (if length (currentOperand c) = 1 \<or> currentOperand c = div_error
      then c\<lparr>currentOperand := js ''0''\<rparr>
      else c\<lparr>currentOperand := butlast (currentOperand c)\<rparr>)"

text \<open>\<open>s.split('.')\<close>: the segments between the points, at least one.\<close>

fun split_point :: "jsstring \<Rightarrow> jsstring list" where
  "split_point [] = [[]]"
| "split_point (c # cs) =
     (if c = 0x2E then [] # split_point cs
      else (case split_point cs of [] \<Rightarrow> [[c]] | seg # segs \<Rightarrow> (c # seg) # segs))"

text \<open>Indexing an array: \<open>None\<close> is \<open>undefined\<close>.\<close>

definition index :: "'a list \<Rightarrow> nat \<Rightarrow> 'a option" where
  "index xs i = (if i < length xs then Some (xs ! i) else None)"

text \<open>
  \<open>getDisplayNumber\<close>. Its argument is always one of the two operand strings, so
  \<open>number.toString()\<close> is the argument. The locale formatting
  \<open>toLocaleString('es', {maximumFractionDigits: 0})\<close> belongs to the platform and is the
  parameter \<open>toLocaleString\<close>.
\<close>

definition getDisplayNumber :: "(num \<Rightarrow> jsstring) \<Rightarrow> jsstring \<Rightarrow> jsstring" where
  "getDisplayNumber toLocaleString number =
     (if number = div_error then number
      else
        let stringNumber = number;
            integerDigits = parseFloat (case index (split_point stringNumber) 0 of
                                          Some seg \<Rightarrow> seg | None \<Rightarrow> js ''undefined'');
            decimalDigits = index (split_point stringNumber) 1;
            integerDisplay = (if isNaN integerDigits then [] else toLocaleString integerDigits)
        in case decimalDigits of
             Some d \<Rightarrow> integerDisplay @ js ''.'' @ d
           | None \<Rightarrow> integerDisplay)"

text \<open>
  The listeners installed by \<open>setupEventListeners\<close>: a number button or digit key calls
  \<open>appendNumber\<close> with its text, an operation button or key \<open>chooseOperation\<close>, and the
  equals, clear and delete controls call \<open>compute\<close>, \<open>clear\<close> and \<open>delete\<close>.
\<close>

datatype key = NumberKey jsstring | OperationKey jsstring | EqualsKey | ClearKey | DeleteKey

fun press :: "calculator \<Rightarrow> key \<Rightarrow> calculator" where
  "press c (NumberKey t) = appendNumber t c"
| "press c (OperationKey t) = chooseOperation t c"
| "press c EqualsKey = compute c"
| "press c ClearKey = clear c"
| "press c DeleteKey = delete c"

definition presses :: "key list \<Rightarrow> calculator" where
  "presses ks = foldl press Calculator ks"

section \<open>JSON\<close>

text \<open>
  The values that \<open>JSON.parse\<close> returns and \<open>JSON.stringify\<close> writes. The properties of
  an object are listed in the order in which JavaScript enumerates them.
\<close>

datatype json =
    JNull
  | JBool bool
  | JNum num
  | JStr jsstring
  | JArr "json list"
  | JObj "(jsstring \<times> json) list"

datatype error = SyntaxError | TypeError

subsection \<open>Defining a property\<close>

text \<open>
  A key that is a canonical array index (the decimal form of an integer below
  \<open>2^32 - 1\<close>) is enumerated before the other keys, in ascending order.
\<close>

definition array_index :: "jsstring \<Rightarrow> nat option" where
  "array_index k =
     (if k \<noteq> [] \<and> list_all is_digit k \<and> (k = js ''0'' \<or> hd k \<noteq> 0x30) \<and>
         digits_val k < 2 ^ 32 - 1
      then Some (digits_val k) else None)"

definition index_below :: "nat \<Rightarrow> jsstring \<times> json \<Rightarrow> bool" where
  "index_below i p = (case array_index (fst p) of Some j \<Rightarrow> j < i | None \<Rightarrow> False)"

text \<open>
  Defining the property \<open>k\<close> with value \<open>v\<close>: an existing property keeps its place and
  takes the new value; a new one is enumerated last, or among the array indices.
\<close>

definition set_prop :: "(jsstring \<times> json) list \<Rightarrow> jsstring \<Rightarrow> json \<Rightarrow> (jsstring \<times> json) list" where
  "set_prop ps k v =
     (if k \<in> fst ` set ps then map (\<lambda>p. if fst p = k then (k, v) else p) ps
      else
        (case array_index k of
           None \<Rightarrow> ps @ [(k, v)]
         | Some i \<Rightarrow> takeWhile (index_below i) ps @ (k, v) # dropWhile (index_below i) ps))"

subsection \<open>\<open>JSON.stringify\<close>\<close>

definition hex_digit :: "nat \<Rightarrow> 16 word" where
  "hex_digit n = (if n < 10 then of_nat (48 + n) else of_nat (87 + n))"

text \<open>The escape \<open>\uXXXX\<close> of a code unit, with lowercase hexadecimal digits.\<close>

definition unicode_escape :: "16 word \<Rightarrow> jsstring" where
  "unicode_escape c =
     [0x5C, 0x75, hex_digit (unat c div 4096), hex_digit (unat c div 256 mod 16),
      hex_digit (unat c div 16 mod 16), hex_digit (unat c mod 16)]"

definition is_high_surrogate :: "16 word \<Rightarrow> bool" where
  "is_high_surrogate c = (0xD800 \<le> c \<and> c \<le> 0xDBFF)"

definition is_low_surrogate :: "16 word \<Rightarrow> bool" where
  "is_low_surrogate c = (0xDC00 \<le> c \<and> c \<le> 0xDFFF)"

text \<open>
  The escape of a single code unit that is not part of a surrogate pair: the short
  escapes, \<open>\uXXXX\<close> for the other control characters and for a lone surrogate, and the
  code unit itself otherwise.
\<close>

definition quote_unit :: "16 word \<Rightarrow> jsstring" where
  "quote_unit c =
     (if c = 0x08 then [0x5C, 0x62]
      else if c = 0x09 then [0x5C, 0x74]
      else if c = 0x0A then [0x5C, 0x6E]
      else if c = 0x0C then [0x5C, 0x66]
      else if c = 0x0D then [0x5C, 0x72]
      else if c = 0x22 then [0x5C, 0x22]
      else if c = 0x5C then [0x5C, 0x5C]
      else if c < 0x20 \<or> is_high_surrogate c \<or> is_low_surrogate c then unicode_escape c
      else [c])"

text \<open>
  The string is read by code points: a high surrogate followed by a low surrogate is one
  code point and is copied.
\<close>

fun quote_units :: "jsstring \<Rightarrow> jsstring" where
  "quote_units [] = []"
| "quote_units [c] = quote_unit c"
| "quote_units (c # d # cs) =
     (if is_high_surrogate c \<and> is_low_surrogate d then c # d # quote_units cs
      else quote_unit c @ quote_units (d # cs))"

definition JSON_quote :: "jsstring \<Rightarrow> jsstring" where
  "JSON_quote s = 0x22 # quote_units s @ [0x22]"

fun join_comma :: "jsstring list \<Rightarrow> jsstring" where
  "join_comma [] = []"
| "join_comma [x] = x"
| "join_comma (x # y # zs) = x @ 0x2C # join_comma (y # zs)"

text \<open>A number that is not finite is written \<open>null\<close>.\<close>

fun JSON_stringify :: "json \<Rightarrow> jsstring" where
  "JSON_stringify JNull = js ''null''"
| "JSON_stringify (JBool b) = (if b then js ''true'' else js ''false'')"
| "JSON_stringify (JNum n) = (if n = NaN \<or> is_inf n then js ''null'' else Number_toString n)"
| "JSON_stringify (JStr s) = JSON_quote s"
| "JSON_stringify (JArr xs) = 0x5B # join_comma (map JSON_stringify xs) @ [0x5D]"
| "JSON_stringify (JObj ps) =
     0x7B # join_comma (map (\<lambda>p. JSON_quote (fst p) @ 0x3A # JSON_stringify (snd p)) ps) @ [0x7D]"

subsection \<open>\<open>JSON.parse\<close>: the tokens\<close>

datatype token = LBrace | RBrace | LBracket | RBracket | Colon | Comma | Scalar json

definition hex_val :: "16 word \<Rightarrow> nat option" where
  "hex_val c =
     (if 0x30 \<le> c \<and> c \<le> 0x39 then Some (unat c - 48)
      else if 0x61 \<le> c \<and> c \<le> 0x66 then Some (unat c - 87)
      else if 0x41 \<le> c \<and> c \<le> 0x46 then Some (unat c - 55)
      else None)"

definition unicode_unit :: "16 word \<Rightarrow> 16 word \<Rightarrow> 16 word \<Rightarrow> 16 word \<Rightarrow> 16 word option" where
  "unicode_unit a b c d =
     (case (hex_val a, hex_val b, hex_val c, hex_val d) of
        (Some x, Some y, Some z, Some w) \<Rightarrow> Some (of_nat (x * 4096 + y * 256 + z * 16 + w))
      | _ \<Rightarrow> None)"

definition simple_escape :: "16 word \<Rightarrow> 16 word option" where
  "simple_escape e =
     (if e = 0x22 then Some 0x22
      else if e = 0x5C then Some 0x5C
      else if e = 0x2F then Some 0x2F
      else if e = 0x62 then Some 0x08
      else if e = 0x66 then Some 0x0C
      else if e = 0x6E then Some 0x0A
      else if e = 0x72 then Some 0x0D
      else if e = 0x74 then Some 0x09
      else None)"

definition cons_unit :: "16 word \<Rightarrow> (jsstring \<times> jsstring) option \<Rightarrow> (jsstring \<times> jsstring) option" where
  "cons_unit c r = (case r of None \<Rightarrow> None | Some (s, rest) \<Rightarrow> Some (c # s, rest))"

text \<open>
  The characters of a string after its opening quotation mark: the string denoted and the
  input after the closing quotation mark, or \<open>None\<close> when the string is malformed.
\<close>

fun string_chars :: "jsstring \<Rightarrow> (jsstring \<times> jsstring) option" where
  "string_chars [] = None"
| "string_chars (c # cs) =
     (if c = 0x22 then Some ([], cs)
      else if c = 0x5C then
        (case cs of
           [] \<Rightarrow> None
         | e # es \<Rightarrow>
             if e = 0x75 then
               (case es of
                  a # b # c' # d # r \<Rightarrow>
                    (case unicode_unit a b c' d of
                       None \<Rightarrow> None
                     | Some u \<Rightarrow> cons_unit u (string_chars r))
                | _ \<Rightarrow> None)
             else
               (case simple_escape e of
                  None \<Rightarrow> None
                | Some u \<Rightarrow> cons_unit u (string_chars es)))
      else if c < 0x20 then None
      else cons_unit c (string_chars cs))"

text \<open>
  A number: an optional minus sign, the integer part (\<open>0\<close>, or digits not starting with
  \<open>0\<close>), an optional fraction with at least one digit and an optional exponent part.
\<close>

definition json_number :: "jsstring \<Rightarrow> (num \<times> jsstring) option" where
  "json_number s =
     (let neg = (case s of [] \<Rightarrow> False | c # _ \<Rightarrow> c = 0x2D);
          u = (if neg then tl s else s);
          ds = takeWhile is_digit u
      in if ds = [] then None
         else
           let ip = (if hd ds = 0x30 then [0x30] else ds);
               r1 = drop (length ip) u;
               fp = (case r1 of [] \<Rightarrow> [] | c # t \<Rightarrow> if c = 0x2E then takeWhile is_digit t else []);
               r2 = (if fp = [] then r1 else drop (Suc (length fp)) r1);
               ex = exponent_part r2;
               m = (of_nat (digits_val ip) + of_nat (digits_val fp) / 10 ^ length fp) *
                   10 powi (fst ex)
           in Some (if neg then num_neg (round64 m) else round64 m, snd ex))"

definition is_json_space :: "16 word \<Rightarrow> bool" where
  "is_json_space c = (c = 0x20 \<or> c = 0x09 \<or> c = 0x0A \<or> c = 0x0D)"

definition cons_token :: "token \<Rightarrow> error + token list \<Rightarrow> error + token list" where
  "cons_token t r = (case r of Inl e \<Rightarrow> Inl e | Inr ts \<Rightarrow> Inr (t # ts))"


text \<open>Both lexers of a token return a strict suffix of their input.\<close>

lemma cons_unit_Some:
  "cons_unit c r = Some (s, rest) \<Longrightarrow> \<exists>s'. r = Some (s', rest)"
  by (auto simp add: cons_unit_def split: option.splits)

lemma string_chars_shorter:
  "string_chars cs = Some (s, rest) \<Longrightarrow> length rest < length cs"
proof (induction cs arbitrary: s rule: string_chars.induct)
  case 1
  then show ?case by simp
next
  case (2 c cs)
  show ?case
  proof (cases "c = 0x22")
    case True
    then show ?thesis using "2.prems" by auto
  next
    case q: False
    show ?thesis
    proof (cases "c = 0x5C")
      case False
      then obtain s' where "string_chars cs = Some (s', rest)"
        using "2.prems" q by (auto split: if_splits dest: cons_unit_Some)
      then show ?thesis using "2.IH"(3) q False "2.prems"
        by (auto split: if_splits)
    next
      case True
      then obtain e es where cs: "cs = e # es"
        using "2.prems" q by (cases cs) auto
      show ?thesis
      proof (cases "e = 0x75")
        case False
        then obtain u s' where "simple_escape e = Some u" "string_chars es = Some (s', rest)"
          using "2.prems" q True cs by (auto split: option.splits dest: cons_unit_Some)
        then show ?thesis using "2.IH"(2) q True cs False by fastforce
      next
        case u: True
        then obtain a b c' d r where es: "es = a # b # c' # d # r"
          using "2.prems" q True cs by (auto split: list.splits)
        then obtain w s' where "unicode_unit a b c' d = Some w" "string_chars r = Some (s', rest)"
          using "2.prems" q True cs u by (auto split: option.splits dest: cons_unit_Some)
        then show ?thesis using "2.IH"(1) q True cs u es by fastforce
      qed
    qed
  qed
qed

lemma exponent_part_length: "length (snd (exponent_part s)) \<le> length s"
proof (cases s)
  case Nil
  then show ?thesis by (simp add: exponent_part_def)
next
  case (Cons c t)
  have "length (dropWhile is_digit u) \<le> length u" for u :: jsstring
    by (rule length_dropWhile_le)
  then have "length (dropWhile is_digit (case t of [] \<Rightarrow> [] | d # t' \<Rightarrow>
      if d = 0x2B \<or> d = 0x2D then t' else t)) \<le> Suc (length t)"
    by (cases t) (auto intro: le_trans [OF length_dropWhile_le])
  then show ?thesis using Cons by (auto simp add: exponent_part_def Let_def)
qed

lemma json_number_shorter:
  assumes "json_number s = Some (n, rest)"
  shows "length rest < length s"
proof -
  define u where "u = (if (case s of [] \<Rightarrow> False | c # _ \<Rightarrow> c = 0x2D) then tl s else s)"
  define ds where "ds = takeWhile is_digit u"
  define ip where "ip = (if hd ds = 0x30 then [0x30] else ds)"
  define r1 where "r1 = drop (length ip) u"
  define fp where "fp = (case r1 of [] \<Rightarrow> [] | c # t \<Rightarrow>
      if c = 0x2E then takeWhile is_digit t else [])"
  define r2 where "r2 = (if fp = [] then r1 else drop (Suc (length fp)) r1)"
  from assms have ds: "ds \<noteq> []" and rest: "rest = snd (exponent_part r2)"
    unfolding json_number_def Let_def u_def [symmetric] ds_def [symmetric] ip_def [symmetric]
      r1_def [symmetric] fp_def [symmetric] r2_def [symmetric]
    by (auto split: if_splits)
  have "length ds \<le> length u" unfolding ds_def by (rule length_takeWhile_le)
  with ds have u: "0 < length u" by (cases u) auto
  have "0 < length ip" "length ip \<le> length ds" using ds by (auto simp add: ip_def Suc_le_eq)
  then have "length r1 < length u" using u by (simp add: r1_def)
  moreover have "length r2 \<le> length r1" by (simp add: r2_def)
  moreover have "length u \<le> length s" by (cases s) (auto simp add: u_def)
  moreover have "length rest \<le> length r2" unfolding rest by (rule exponent_part_length)
  ultimately show ?thesis by linarith
qed

text \<open>
  The tokens of a text. White space is allowed between tokens; anything that is not a
  token is a syntax error.
\<close>

function tokenize :: "jsstring \<Rightarrow> error + token list" where
  "tokenize [] = Inr []"
| "tokenize (c # cs) =
     (if is_json_space c then tokenize cs
      else if c = 0x7B then cons_token LBrace (tokenize cs)
      else if c = 0x7D then cons_token RBrace (tokenize cs)
      else if c = 0x5B then cons_token LBracket (tokenize cs)
      else if c = 0x5D then cons_token RBracket (tokenize cs)
      else if c = 0x3A then cons_token Colon (tokenize cs)
      else if c = 0x2C then cons_token Comma (tokenize cs)
      else if c = 0x22 then
        (case string_chars cs of
           None \<Rightarrow> Inl SyntaxError
         | Some (s, rest) \<Rightarrow> cons_token (Scalar (JStr s)) (tokenize rest))
      else if c = 0x2D \<or> is_digit c then
        (case json_number (c # cs) of
           None \<Rightarrow> Inl SyntaxError
         | Some (n, rest) \<Rightarrow> cons_token (Scalar (JNum n)) (tokenize rest))
      else if take 4 (c # cs) = js ''true'' then cons_token (Scalar (JBool True)) (tokenize (drop 3 cs))
      else if take 5 (c # cs) = js ''false'' then cons_token (Scalar (JBool False)) (tokenize (drop 4 cs))
      else if take 4 (c # cs) = js ''null'' then cons_token (Scalar JNull) (tokenize (drop 3 cs))
      else Inl SyntaxError)"
  by pat_completeness auto
termination
  by (relation "measure length")
     (auto dest: string_chars_shorter json_number_shorter simp add: less_Suc_eq_le)

declare tokenize.simps(2) [simp del]

subsection \<open>\<open>JSON.parse\<close>: the grammar\<close>

text \<open>
  The parser reads the tokens from left to right. The stack holds the arrays and objects
  that are open: the elements read so far, or the properties defined so far and the key
  whose value is being read.
\<close>

datatype frame = InArray "json list" | InObject "(jsstring \<times> json) list" jsstring

datatype expect =
    Value
  | ValueOrClose
  | Key "(jsstring \<times> json) list"
  | KeyOrClose
  | KeyColon "(jsstring \<times> json) list" jsstring
  | After json

definition start_value :: "frame list \<Rightarrow> token \<Rightarrow> (expect \<times> frame list) option" where
  "start_value st t =
     (case t of
        Scalar v \<Rightarrow> Some (After v, st)
      | LBracket \<Rightarrow> Some (ValueOrClose, InArray [] # st)
      | LBrace \<Rightarrow> Some (KeyOrClose, st)
      | _ \<Rightarrow> None)"

definition key_token :: "token \<Rightarrow> jsstring option" where
  "key_token t = (case t of Scalar (JStr k) \<Rightarrow> Some k | _ \<Rightarrow> None)"

text \<open>One token; \<open>None\<close> when the token is not allowed here.\<close>

definition parse_step :: "expect \<Rightarrow> frame list \<Rightarrow> token \<Rightarrow> (expect \<times> frame list) option" where
  "parse_step e st t =
     (case e of
        Value \<Rightarrow> start_value st t
      | ValueOrClose \<Rightarrow>
          (if t = RBracket
           then (case st of InArray xs # st' \<Rightarrow> Some (After (JArr xs), st') | _ \<Rightarrow> None)
           else start_value st t)
      | KeyOrClose \<Rightarrow>
          (if t = RBrace then Some (After (JObj []), st)
           else (case key_token t of Some k \<Rightarrow> Some (KeyColon [] k, st) | None \<Rightarrow> None))
      | Key ps \<Rightarrow> (case key_token t of Some k \<Rightarrow> Some (KeyColon ps k, st) | None \<Rightarrow> None)
      | KeyColon ps k \<Rightarrow> (if t = Colon then Some (Value, InObject ps k # st) else None)
      | After v \<Rightarrow>
          (case st of
             [] \<Rightarrow> None
           | InArray xs # st' \<Rightarrow>
               if t = Comma then Some (Value, InArray (xs @ [v]) # st')
               else if t = RBracket then Some (After (JArr (xs @ [v])), st')
               else None
           | InObject ps k # st' \<Rightarrow>
               if t = Comma then Some (Key (set_prop ps k v), st')
               else if t = RBrace then Some (After (JObj (set_prop ps k v)), st')
               else None))"

text \<open>The text is a value when the tokens end after a value, with nothing open.\<close>

fun parse_tokens :: "expect \<Rightarrow> frame list \<Rightarrow> token list \<Rightarrow> error + json" where
  "parse_tokens e st [] =
     (case e of After v \<Rightarrow> if st = [] then Inr v else Inl SyntaxError | _ \<Rightarrow> Inl SyntaxError)"
| "parse_tokens e st (t # ts) =
     (case parse_step e st t of
        None \<Rightarrow> Inl SyntaxError
      | Some (e', st') \<Rightarrow> parse_tokens e' st' ts)"

definition JSON_parse :: "jsstring \<Rightarrow> error + json" where
  "JSON_parse text = (case tokenize text of Inl e \<Rightarrow> Inl e | Inr ts \<Rightarrow> parse_tokens Value [] ts)"


section \<open>The dynamic list\<close>

subsection \<open>Values in expressions\<close>

text \<open>
  A property read yields a value or \<open>undefined\<close>, written \<open>None\<close>. Reading a property of
  \<open>null\<close> throws a \<open>TypeError\<close>. The keys read by \<open>tema.js\<close> (\<open>id\<close>, \<open>title\<close>,
  \<open>description\<close>, \<open>value\<close>, \<open>createdAt\<close>) are not properties of the built-in prototypes, so
  only an object that has the key as its own property yields a value.
\<close>

definition get_prop :: "json \<Rightarrow> jsstring \<Rightarrow> error + json option" where
  "get_prop v k =
     (case v of
        JNull \<Rightarrow> Inl TypeError
      | JObj ps \<Rightarrow> Inr (map_of ps k)
      | _ \<Rightarrow> Inr None)"

text \<open>The condition of \<open>||\<close> and \<open>? :\<close>.\<close>

definition truthy :: "json option \<Rightarrow> bool" where
  "truthy v =
     (case v of
        None \<Rightarrow> False
      | Some JNull \<Rightarrow> False
      | Some (JBool b) \<Rightarrow> b
      | Some (JNum n) \<Rightarrow> \<not> (isNaN n \<or> is_zero n)
      | Some (JStr s) \<Rightarrow> s \<noteq> []
      | Some _ \<Rightarrow> True)"

fun join_with :: "jsstring \<Rightarrow> jsstring list \<Rightarrow> jsstring" where
  "join_with sep [] = []"
| "join_with sep [x] = x"
| "join_with sep (x # y # zs) = x @ sep @ join_with sep (y # zs)"

text \<open>The results of a list of conversions, or the first error.\<close>

fun sequence :: "(error + 'a) list \<Rightarrow> error + 'a list" where
  "sequence [] = Inr []"
| "sequence (r # rs) =
     (case r of
        Inl e \<Rightarrow> Inl e
      | Inr x \<Rightarrow> (case sequence rs of Inl e \<Rightarrow> Inl e | Inr xs \<Rightarrow> Inr (x # xs)))"

text \<open>
  The conversion to a string of a value interpolated in a template literal. An array is
  joined with commas, \<open>null\<close> elements as empty strings. An object is
  \<open>[object Object]\<close>, unless it has an own property \<open>toString\<close>: a parsed value is never
  a function, so no conversion is found and a \<open>TypeError\<close> is thrown.
\<close>

fun ToString :: "json \<Rightarrow> error + jsstring" where
  "ToString JNull = Inr (js ''null'')"
| "ToString (JBool b) = Inr (if b then js ''true'' else js ''false'')"
| "ToString (JNum n) = Inr (Number_toString n)"
| "ToString (JStr s) = Inr s"
| "ToString (JArr xs) =
     (case sequence (map (\<lambda>x. if x = JNull then Inr [] else ToString x) xs) of
        Inl e \<Rightarrow> Inl e
      | Inr ss \<Rightarrow> Inr (join_with (js '','') ss))"
| "ToString (JObj ps) =
     (if js ''toString'' \<in> fst ` set ps then Inl TypeError else Inr (js ''[object Object]''))"

definition ToString_opt :: "json option \<Rightarrow> error + jsstring" where
  "ToString_opt v = (case v of None \<Rightarrow> Inr (js ''undefined'') | Some x \<Rightarrow> ToString x)"

text \<open>
  \<open>a !== b\<close> for a property value \<open>a\<close> and a number \<open>b\<close>: only a number is equal to a
  number; \<open>NaN\<close> is equal to nothing and the two zeros are equal.
\<close>

definition strict_equal_num :: "json option \<Rightarrow> num \<Rightarrow> bool" where
  "strict_equal_num a b =
     (case a of
        Some (JNum n) \<Rightarrow> n \<noteq> NaN \<and> b \<noteq> NaN \<and> (n = b \<or> is_zero n \<and> is_zero b)
      | _ \<Rightarrow> False)"

subsection \<open>The platform\<close>

text \<open>
  What the page and the browser supply: the element ids of the document, the numbers
  returned by the successive calls of \<open>Math.random()\<close>, and the date formatting
  \<open>new Date(v).toLocaleDateString()\<close> of a primitive value \<open>v\<close>.
\<close>

record platform =
  hasElement :: "jsstring \<Rightarrow> bool"
  random :: "nat \<Rightarrow> num"
  toLocaleDateString :: "json option \<Rightarrow> jsstring"

subsection \<open>The state\<close>

text \<open>
  A card is the element built by \<open>createItemElement\<close>: the values interpolated in its
  markup, its \<open>data-id\<close>, and the id that the listener of its delete button passes to
  \<open>removeItem\<close>.
\<close>

record card =
  datasetId :: jsstring
  borderColor :: jsstring
  titleText :: jsstring
  dateText :: jsstring
  descriptionText :: jsstring
  valueText :: "jsstring option"
  deleteDataId :: jsstring
  deleteTarget :: "json option"

text \<open>
  The object \<open>DynamicList\<close> with what its methods read and write outside it: the children
  of the container element, the class \<open>hidden\<close> of the empty-list message, the entry
  \<open>dynamicListItems\<close> of the local storage and the number of calls of \<open>Math.random()\<close>
  made so far.
\<close>

record dynamic_list =
  items :: json
  containerId :: jsstring
  container :: bool
  emptyMessage :: bool
  children :: "card list"
  emptyMessageHidden :: bool
  savedItems :: "jsstring option"
  randomCalls :: nat

definition COLOR_PALETTE_primary :: "jsstring list" where
  "COLOR_PALETTE_primary =
     [js ''#2D00F7'', js ''#6A00F4'', js ''#8900F2'', js ''#A100F2'', js ''#B100E8'']"

text \<open>\<open>COLOR_PALETTE.primary[Math.floor(r * 5)]\<close>\<close>

definition palette_color :: "num \<Rightarrow> jsstring option" where
  "palette_color r =
     (case num_mul r (Fin 5) of
        Fin x \<Rightarrow> if 0 \<le> \<lfloor>x\<rfloor> then index COLOR_PALETTE_primary (nat \<lfloor>x\<rfloor>) else None
      | NZero \<Rightarrow> index COLOR_PALETTE_primary 0
      | _ \<Rightarrow> None)"

text \<open>
  \<open>new Date(v).toLocaleDateString()\<close>: an array or an object is converted to a string
  first, which may throw.
\<close>

definition date_text :: "platform \<Rightarrow> json option \<Rightarrow> error + jsstring" where
  "date_text p v =
     (case v of
        Some (JArr xs) \<Rightarrow>
          (case ToString (JArr xs) of
             Inl e \<Rightarrow> Inl e
           | Inr s \<Rightarrow> Inr (toLocaleDateString p (Some (JStr s))))
      | Some (JObj ps) \<Rightarrow>
          (case ToString (JObj ps) of
             Inl e \<Rightarrow> Inl e
           | Inr s \<Rightarrow> Inr (toLocaleDateString p (Some (JStr s))))
      | _ \<Rightarrow> Inr (toLocaleDateString p v))"

definition or_default :: "json option \<Rightarrow> jsstring \<Rightarrow> error + jsstring" where
  "or_default v d = (if truthy v then ToString_opt v else Inr d)"

definition bind :: "error + 'a \<Rightarrow> ('a \<Rightarrow> error + 'b) \<Rightarrow> error + 'b" where
  "bind r f = (case r of Inl e \<Rightarrow> Inl e | Inr x \<Rightarrow> f x)"

text \<open>\<open>createItemElement(item)\<close>, with \<open>r\<close> the number returned by \<open>Math.random()\<close>.\<close>

definition createItemElement :: "platform \<Rightarrow> num \<Rightarrow> json \<Rightarrow> error + card" where
  "createItemElement p r item =
     bind (get_prop item (js ''id'')) (\<lambda>ident.
     bind (ToString_opt ident) (\<lambda>idText.
     bind (get_prop item (js ''title'')) (\<lambda>title.
     bind (or_default title (js ''Sin t'' @ [0xED] @ js ''tulo'')) (\<lambda>titleT.
     bind (get_prop item (js ''createdAt'')) (\<lambda>createdAt.
     bind (date_text p createdAt) (\<lambda>dateT.
     bind (get_prop item (js ''description'')) (\<lambda>description.
     bind (or_default description (js ''Sin descripci'' @ [0xF3] @ js ''n'')) (\<lambda>descriptionT.
     bind (get_prop item (js ''value'')) (\<lambda>val.
     bind (if truthy val then bind (ToString_opt val) (\<lambda>s. Inr (Some s)) else Inr None)
       (\<lambda>valueT.
     Inr \<lparr>datasetId = idText,
          borderColor = (case palette_color r of Some c \<Rightarrow> c | None \<Rightarrow> js ''undefined''),
          titleText = titleT,
          dateText = dateT,
          descriptionText = descriptionT,
          valueText = valueT,
          deleteDataId = idText,
          deleteTarget = ident\<rparr>))))))))))"

text \<open>
  The loop of \<open>render\<close>: one card per item, each with the next number of
  \<open>Math.random()\<close>.
\<close>

fun create_cards :: "platform \<Rightarrow> nat \<Rightarrow> json list \<Rightarrow> error + card list" where
  "create_cards p n [] = Inr []"
| "create_cards p n (item # rest) =
     bind (createItemElement p (random p n) item) (\<lambda>c.
     bind (create_cards p (Suc n) rest) (\<lambda>cs. Inr (c # cs)))"

definition showEmptyMessage :: "dynamic_list \<Rightarrow> dynamic_list" where
  "showEmptyMessage l = (if emptyMessage l then l\<lparr>emptyMessageHidden := False\<rparr> else l)"

definition hideEmptyMessage :: "dynamic_list \<Rightarrow> dynamic_list" where
  "hideEmptyMessage l = (if emptyMessage l then l\<lparr>emptyMessageHidden := True\<rparr> else l)"

text \<open>
  \<open>this.items.length === 0\<close>: the length of an array or of a string, the own property
  \<open>length\<close> of an object, \<open>undefined\<close> for a number or a boolean.
\<close>

definition length_is_zero :: "json \<Rightarrow> error + bool" where
  "length_is_zero v =
     (case v of
        JNull \<Rightarrow> Inl TypeError
      | JArr xs \<Rightarrow> Inr (xs = [])
      | JStr s \<Rightarrow> Inr (s = [])
      | JObj ps \<Rightarrow> Inr (strict_equal_num (map_of ps (js ''length'')) (Fin 0))
      | _ \<Rightarrow> Inr False)"

text \<open>
  \<open>render()\<close>. Only an array has the method \<open>forEach\<close>; on any other value the call
  throws a \<open>TypeError\<close>.
\<close>

definition render :: "platform \<Rightarrow> dynamic_list \<Rightarrow> error + dynamic_list" where
  "render p l =
     (if \<not> container l then Inr l
      else
        let l1 = l\<lparr>children := []\<rparr>
        in bind (length_is_zero (items l1)) (\<lambda>empty.
             if empty then Inr (showEmptyMessage l1)
             else
               let l2 = hideEmptyMessage l1
               in (case items l2 of
                     JArr xs \<Rightarrow>
                       bind (create_cards p (randomCalls l2) xs) (\<lambda>cs.
                         Inr (l2\<lparr>children := cs, randomCalls := randomCalls l2 + length xs\<rparr>))
                   | _ \<Rightarrow> Inl TypeError)))"

definition saveToLocalStorage :: "dynamic_list \<Rightarrow> dynamic_list" where
  "saveToLocalStorage l = l\<lparr>savedItems := Some (JSON_stringify (items l))\<rparr>"

text \<open>
  \<open>init(containerId)\<close>. The stored text is used when it is a non-empty string;
  \<open>JSON.parse\<close> may throw, and nothing in \<open>init\<close> catches it.
\<close>

definition init :: "platform \<Rightarrow> jsstring \<Rightarrow> dynamic_list \<Rightarrow> error + dynamic_list" where
  "init p cid l =
     (let l1 = l\<lparr>containerId := cid, container := hasElement p cid,
                 emptyMessage := hasElement p (js ''lista-vacia-msg'')\<rparr>
      in if \<not> container l1 then Inr l1
         else
           (case savedItems l1 of
              None \<Rightarrow> Inr l1
            | Some saved \<Rightarrow>
                if saved = [] then Inr l1
                else bind (JSON_parse saved) (\<lambda>v. render p (l1\<lparr>items := v\<rparr>))))"

text \<open>
  \<open>this.items.filter(item => item.id !== itemId)\<close>, for a number \<open>itemId\<close> (every id
  made by \<open>addItem\<close> is a number). Only an array has the method \<open>filter\<close>.
\<close>

fun filter_items :: "num \<Rightarrow> json list \<Rightarrow> error + json list" where
  "filter_items itemId [] = Inr []"
| "filter_items itemId (item # rest) =
     bind (get_prop item (js ''id'')) (\<lambda>ident.
     bind (filter_items itemId rest) (\<lambda>kept.
       Inr (if \<not> strict_equal_num ident itemId then item # kept else kept)))"

definition removeItem :: "platform \<Rightarrow> num \<Rightarrow> dynamic_list \<Rightarrow> error + dynamic_list" where
  "removeItem p itemId l =
     (case items l of
        JArr xs \<Rightarrow>
          bind (filter_items itemId xs) (\<lambda>kept.
            render p (saveToLocalStorage (l\<lparr>items := JArr kept\<rparr>)))
      | _ \<Rightarrow> Inl TypeError)"

text \<open>
  \<open>addItem(itemData)\<close>, with \<open>now\<close> the number returned by \<open>Date.now()\<close> and \<open>isoText\<close> the
  string returned by \<open>new Date().toISOString()\<close>. The object literal defines \<open>id\<close>, then
  the properties of \<open>itemData\<close> in their order, then \<open>createdAt\<close>. The result is the new item
  and the state.
\<close>

definition new_item :: "num \<Rightarrow> jsstring \<Rightarrow> (jsstring \<times> json) list \<Rightarrow> json" where
  "new_item now isoText itemData =
     JObj (set_prop (foldl (\<lambda>ps kv. set_prop ps (fst kv) (snd kv)) [(js ''id'', JNum now)] itemData)
             (js ''createdAt'') (JStr isoText))"

definition addItem ::
  "platform \<Rightarrow> num \<Rightarrow> jsstring \<Rightarrow> (jsstring \<times> json) list \<Rightarrow> dynamic_list \<Rightarrow>
   error + json \<times> dynamic_list" where
  "addItem p now isoText itemData l =
     (case items l of
        JArr xs \<Rightarrow>
          bind (render p (saveToLocalStorage (l\<lparr>items := JArr (new_item now isoText itemData # xs)\<rparr>)))
            (\<lambda>l'. Inr (new_item now isoText itemData, l'))
      | _ \<Rightarrow> Inl TypeError)"

definition clearAll :: "platform \<Rightarrow> dynamic_list \<Rightarrow> error + dynamic_list" where
  "clearAll p l = render p (saveToLocalStorage (l\<lparr>items := JArr []\<rparr>))"

text \<open>The object literal \<open>DynamicList\<close>, before \<open>init\<close>, on a page with nothing stored.\<close>

definition DynamicList :: dynamic_list where
  "DynamicList =
     \<lparr>items = JArr [], containerId = js ''lista-dinamica'', container = False,
      emptyMessage = False, children = [], emptyMessageHidden = False, savedItems = None,
      randomCalls = 0\<rparr>"

text \<open>
  The data passed by the form of the page: \<open>title\<close>, \<open>description\<close> and \<open>value\<close>, all
  strings.
\<close>

definition formData :: "jsstring \<Rightarrow> jsstring \<Rightarrow> jsstring \<Rightarrow> (jsstring \<times> json) list" where
  "formData t d v = [(js ''title'', JStr t), (js ''description'', JStr d), (js ''value'', JStr v)]"

subsection \<open>The records of the data model\<close>

text \<open>
  A time value, as \<open>Date.now()\<close> returns it: an integral number of milliseconds of
  magnitude at most \<open>8.64 * 10^15\<close>.
\<close>

definition time_value :: "num \<Rightarrow> bool" where
  "time_value n =
     (case n of Fin x \<Rightarrow> x = of_int \<lfloor>x\<rfloor> \<and> \<bar>x\<bar> \<le> 8640000000000000 | _ \<Rightarrow> False)"

text \<open>
  A \<open>ListItem\<close>: an object with the properties \<open>id\<close> (a time value), \<open>title\<close>,
  \<open>description\<close>, \<open>value\<close> and \<open>createdAt\<close> (strings), as \<open>addItem\<close> builds it from the data
  of the form.
\<close>

definition ListItem :: "json \<Rightarrow> bool" where
  "ListItem j =
     (case j of
        JObj [(k1, JNum n), (k2, JStr t), (k3, JStr d), (k4, JStr v), (k5, JStr c)] \<Rightarrow>
          k1 = js ''id'' \<and> k2 = js ''title'' \<and> k3 = js ''description'' \<and> k4 = js ''value'' \<and>
          k5 = js ''createdAt'' \<and> time_value n
      | _ \<Rightarrow> False)"

text \<open>The part of a card that the spec calls its display descriptor.\<close>

definition descriptor :: "card \<Rightarrow> jsstring \<times> jsstring \<times> jsstring \<times> jsstring option \<times> jsstring" where
  "descriptor c = (titleText c, dateText c, descriptionText c, valueText c, deleteDataId c)"


subsection \<open>Notions used in the statements\<close>

text \<open>A record whose \<open>id\<close> is strictly equal to the number \<open>i\<close>.\<close>

definition has_id :: "num \<Rightarrow> json \<Rightarrow> bool" where
  "has_id i x = (case get_prop x (js ''id'') of Inr v \<Rightarrow> strict_equal_num v i | Inl _ \<Rightarrow> False)"

text \<open>The display descriptors of the cards shown after a call, or the error thrown.\<close>

definition rendered ::
  "error + dynamic_list \<Rightarrow>
   error + (jsstring \<times> jsstring \<times> jsstring \<times> jsstring option \<times> jsstring) list" where
  "rendered r = (case r of Inl e \<Rightarrow> Inl e | Inr l \<Rightarrow> Inr (map descriptor (children l)))"

text \<open>The sequence of items after a call, or the error thrown.\<close>

definition result_items :: "error + dynamic_list \<Rightarrow> error + json" where
  "result_items r = (case r of Inl e \<Rightarrow> Inl e | Inr l \<Rightarrow> Inr (items l))"

subsection \<open>A page and two items for the examples\<close>

definition platform0 :: platform where
  "platform0 = \<lparr>hasElement = (\<lambda>_. True), random = (\<lambda>_. Fin 0),
                toLocaleDateString = (\<lambda>_. js ''1/1/2025'')\<rparr>"

definition item_a :: json where
  "item_a = JObj [(js ''id'', JNum (Fin 5)), (js ''title'', JStr (js ''a'')),
     (js ''description'', JStr []), (js ''value'', JStr []),
     (js ''createdAt'', JStr (js ''2025-01-01T00:00:00.000Z''))]"

definition item_b :: json where
  "item_b = JObj [(js ''id'', JNum (Fin 5)), (js ''title'', JStr (js ''b'')),
     (js ''description'', JStr []), (js ''value'', JStr []),
     (js ''createdAt'', JStr (js ''2025-01-01T00:00:00.000Z''))]"

definition item_c :: json where
  "item_c = JObj [(js ''id'', JNum (Fin 7)), (js ''title'', JStr (js ''c'')),
     (js ''description'', JStr []), (js ''value'', JStr []),
     (js ''createdAt'', JStr (js ''2025-01-01T00:00:00.007Z''))]"

text \<open>
  The page is initialised with nothing stored, and the form is submitted twice within
  the same millisecond: \<open>Date.now()\<close> is \<open>5\<close> both times.
\<close>

definition added_twice :: "error + dynamic_list" where
  "added_twice =
     bind (init platform0 (js ''lista-dinamica'') DynamicList) (\<lambda>l0.
     bind (addItem platform0 (Fin 5) (js ''2025-01-01T00:00:00.000Z'')
             (formData (js ''a'') [] []) l0) (\<lambda>r1.
     bind (addItem platform0 (Fin 5) (js ''2025-01-01T00:00:00.000Z'')
             (formData (js ''b'') [] []) (snd r1)) (\<lambda>r2.
     Inr (snd r2))))"

subsection \<open>Values that are written and read back unchanged\<close>

text \<open>
  An integer of magnitude below \<open>2^53\<close>; \<open>-0\<close> is not one, as it is written \<open>0\<close>.
\<close>

definition safe_integer :: "num \<Rightarrow> bool" where
  "safe_integer n = (case n of Fin x \<Rightarrow> x = of_int \<lfloor>x\<rfloor> \<and> \<bar>x\<bar> < 2 ^ 53 | _ \<Rightarrow> False)"

text \<open>
  The values considered for the round trip: numbers are safe integers, and the keys of an
  object are distinct and no array indices, so that reading them back defines them in the
  order written.
\<close>

fun plain :: "json \<Rightarrow> bool" where
  "plain JNull = True"
| "plain (JBool b) = True"
| "plain (JNum n) = safe_integer n"
| "plain (JStr s) = True"
| "plain (JArr xs) = (\<forall>x\<in>set xs. plain x)"
| "plain (JObj ps) =
     (distinct (map fst ps) \<and> (\<forall>p\<in>set ps. array_index (fst p) = None \<and> plain (snd p)))"

text \<open>The tokens of the text written for a value.\<close>

fun separated :: "token list list \<Rightarrow> token list" where
  "separated [] = []"
| "separated [x] = x"
| "separated (x # y # zs) = x @ Comma # separated (y # zs)"

fun tokens_of :: "json \<Rightarrow> token list" where
  "tokens_of (JArr xs) = LBracket # separated (map tokens_of xs) @ [RBracket]"
| "tokens_of (JObj ps) =
     LBrace # separated (map (\<lambda>p. Scalar (JStr (fst p)) # Colon # tokens_of (snd p)) ps) @ [RBrace]"
| "tokens_of v = [Scalar v]"

text \<open>What may follow a value in the text written: nothing, a comma or a closing bracket.\<close>

definition value_end :: "jsstring \<Rightarrow> bool" where
  "value_end rest = (rest = [] \<or> hd rest = 0x2C \<or> hd rest = 0x5D \<or> hd rest = 0x7D)"


section \<open>Properties of the number model\<close>

subsection \<open>Rounding\<close>

lemma powi_mono2: "a \<le> b \<Longrightarrow> (2::rat) powi a \<le> 2 powi b"
  by (rule power_int_increasing) simp_all

lemma powi_less_cancel2: "(2::rat) powi a < 2 powi b \<Longrightarrow> a < b"
  by (metis powi_mono2 not_le)

lemma bitlen_powi_bounds:
  assumes "0 < p"
  shows "(2::rat) powi (bitlen p - 1) \<le> of_int p" and "(of_int p :: rat) < 2 powi (bitlen p)"
proof -
  have b1: "1 \<le> bitlen p" using assms by (simp add: bitlen_alt_def)
  have "(2::int) ^ nat (bitlen p - 1) \<le> p" "p < 2 ^ nat (bitlen p)"
    using bitlen_bounds[OF assms] by auto
  then have "(of_int ((2::int) ^ nat (bitlen p - 1)) :: rat) \<le> of_int p"
       "(of_int p :: rat) < of_int (2 ^ nat (bitlen p))"
    by (simp_all only: of_int_le_iff of_int_less_iff)
  then show "(2::rat) powi (bitlen p - 1) \<le> of_int p" "(of_int p :: rat) < 2 powi (bitlen p)"
    using b1 by (simp_all add: power_int_def)
qed

lemma ilog2_bounds:
  assumes "0 < a"
  shows "2 powi (ilog2 a) \<le> a" and "a < 2 powi (ilog2 a + 1)"
proof -
  define p where "p = fst (quotient_of a)"
  define d where "d = snd (quotient_of a)"
  define k where "k = bitlen p - bitlen d"
  have d0: "0 < d" by (simp add: d_def quotient_of_denom_pos')
  have a_eq: "a = of_int p / of_int d"
    by (metis p_def d_def prod.collapse quotient_of_div)
  have p0: "0 < p"
    using assms d0 a_eq by (simp add: zero_less_divide_iff)
  note P = bitlen_powi_bounds[OF p0] and D = bitlen_powi_bounds[OF d0]
  have dpos: "(0::rat) < of_int d" using d0 by simp
  have il: "ilog2 a = (if 2 powi k \<le> a then k else k - 1)"
    by (simp add: ilog2_def Let_def p_def d_def k_def)
  have up: "a < 2 powi (k + 1)"
  proof -
    have "of_int p < (2::rat) powi (bitlen p)" by (rule P)
    also have "\<dots> = 2 powi (k + 1) * 2 powi (bitlen d - 1)"
      by (simp add: k_def power_int_add[symmetric])
    also have "\<dots> \<le> 2 powi (k + 1) * of_int d"
      using D(1) by (simp add: mult_left_mono)
    finally show ?thesis using dpos by (simp add: a_eq pos_divide_less_eq)
  qed
  have lo: "2 powi (k - 1) \<le> a"
  proof -
    have "2 powi (k - 1) * of_int d \<le> 2 powi (k - 1) * (2::rat) powi (bitlen d)"
      using D(2) by (simp add: mult_left_mono)
    also have "\<dots> = 2 powi (bitlen p - 1)"
      by (simp add: k_def power_int_add[symmetric])
    also have "\<dots> \<le> of_int p" by (rule P)
    finally show ?thesis using dpos by (simp add: a_eq pos_le_divide_eq)
  qed
  show "2 powi (ilog2 a) \<le> a" using lo by (simp add: il)
  show "a < 2 powi (ilog2 a + 1)" using up by (auto simp add: il not_le)
qed

lemma round_half_even_of_int [simp]: "round_half_even (of_int z) = z"
  by (simp add: round_half_even_def)

lemma round_half_even_ge_floor: "\<lfloor>q\<rfloor> \<le> round_half_even q"
  by (simp add: round_half_even_def Let_def)


lemma round64_unfold:
  assumes "q \<noteq> 0"
    and "ulp = 2 powi (max (ilog2 \<bar>q\<bar>) (- 1022) - 52)"
    and "r = of_int (round_half_even (\<bar>q\<bar> / ulp)) * ulp"
  shows "round64 q =
    (if 2 ^ 1024 \<le> r then (if q < 0 then NInf else PInf)
     else if r = 0 then (if q < 0 then NZero else Fin 0)
     else Fin (if q < 0 then - r else r))"
  using assms(1) unfolding round64_def Let_def assms(2,3) by (simp only: if_False)

lemma round64_pos_exact:
  assumes "0 < n" "n < 2 ^ 53"
  shows "round64 (of_int n) = Fin (of_int n)"
proof -
  define a :: rat where "a = of_int n"
  define e where "e = max (ilog2 \<bar>a\<bar>) (- 1022)"
  have a0: "0 < a" using assms by (simp add: a_def)
  have a53: "a < 2 ^ 53"
    using assms(2) unfolding a_def by (metis of_int_less_iff of_int_numeral of_int_power)
  have "2 powi (ilog2 a) \<le> a" by (rule ilog2_bounds[OF a0])
  also have "a < 2 powi 53" using a53 by simp
  finally have "ilog2 a < 53" by (rule powi_less_cancel2)
  then have e52: "e \<le> 52" using a0 by (simp add: e_def)
  define z where "z = n * 2 ^ nat (52 - e)"
  have ulp: "(2::rat) powi (e - 52) = 1 / 2 ^ nat (52 - e)"
    using e52 by (simp add: power_int_def field_simps)
  have q: "\<bar>a\<bar> / 2 powi (e - 52) = of_int z"
    using a0 by (simp add: ulp z_def a_def)
  have r: "of_int z * (2::rat) powi (e - 52) = a"
    by (simp add: ulp z_def a_def)
  have "a < 2 ^ 53" by (rule a53)
  also have "\<dots> \<le> (2::rat) ^ 1024" by (rule power_increasing) simp_all
  finally have big: "\<not> 2 ^ 1024 \<le> a" by (simp only: not_le)
  have an0: "a \<noteq> 0" and nneg: "\<not> a < 0" using a0 by auto
  have "round64 a = Fin a"
    using round64_unfold[OF an0 refl refl, unfolded e_def[symmetric] q round_half_even_of_int r]
    by (simp only: big an0 nneg if_False)
  then show ?thesis by (simp only: a_def)
qed

lemma round64_large:
  assumes "2 ^ 53 \<le> q"
  shows "round64 q = PInf \<or> (\<exists>r. round64 q = Fin r \<and> 2 ^ 53 \<le> r)"
proof -
  define e where "e = ilog2 q"
  have "(0::rat) < 2 ^ 53" by (rule zero_less_power) simp
  then have q0: "0 < q" using assms by (rule less_le_trans)
  have aq: "\<bar>q\<bar> = q" using q0 by simp
  have "(2::rat) powi 53 \<le> q" using assms by simp
  also have "q < 2 powi (e + 1)" unfolding e_def by (rule ilog2_bounds[OF q0])
  finally have "53 < e + 1" by (rule powi_less_cancel2)
  then have e53: "53 \<le> e" by simp
  have emax: "max (ilog2 q) (- 1022) = e" using e53 by (simp add: e_def)
  define ulp :: rat where "ulp = 2 powi (e - 52)"
  define m where "m = round_half_even (q / ulp)"
  define r where "r = of_int m * ulp"
  have ulp0: "0 < ulp" by (simp add: ulp_def)
  have "2 powi e \<le> q" unfolding e_def by (rule ilog2_bounds[OF q0])
  then have "2 powi e / ulp \<le> q / ulp" using ulp0 by (simp add: divide_right_mono)
  moreover have "2 powi e / ulp = of_int (2 ^ 52)"
    by (simp add: ulp_def power_int_diff)
  ultimately have "(of_int (2 ^ 52) :: rat) \<le> q / ulp" by (simp only:)
  then have "2 ^ 52 \<le> \<lfloor>q / ulp\<rfloor>" by (simp only: le_floor_iff)
  also have "\<dots> \<le> m" unfolding m_def by (rule round_half_even_ge_floor)
  finally have m52: "2 ^ 52 \<le> m" .
  have "(2::rat) powi 53 \<le> 2 powi e" by (rule powi_mono2[OF e53])
  also have "\<dots> = of_int (2 ^ 52) * ulp" by (simp add: ulp_def power_int_diff)
  also have "\<dots> \<le> of_int m * ulp"
  proof (rule mult_right_mono)
    show "(of_int (2 ^ 52) :: rat) \<le> of_int m" using m52 by (simp only: of_int_le_iff)
    show "0 \<le> ulp" using ulp0 by simp
  qed
  finally have r53: "(2::rat) ^ 53 \<le> r" by (simp add: r_def)
  have "(0::rat) < 2 ^ 53" by (rule zero_less_power) simp
  then have "0 < r" using r53 by (rule less_le_trans)
  then have rn0: "r \<noteq> 0" and nneg: "\<not> q < 0" and qn0: "q \<noteq> 0" using q0 by auto
  have eq: "round64 q = (if 2 ^ 1024 \<le> r then PInf else Fin r)"
    using round64_unfold[OF qn0 refl refl, unfolded aq emax ulp_def[symmetric] m_def[symmetric] r_def[symmetric]]
    by (simp only: rn0 nneg if_False)
  show ?thesis
  proof (cases "(2::rat) ^ 1024 \<le> r")
    case True
    then show ?thesis by (simp only: eq if_True simp_thms)
  next
    case False
    then have "round64 q = Fin r" by (simp only: eq if_False)
    then show ?thesis using r53 by blast
  qed
qed


text \<open>A double is not changed by rounding.\<close>

lemma round64_dyadic:
  assumes "0 < n" "n < 2 ^ 53" "- 1074 \<le> k" "k \<le> 970"
  shows "round64 (of_int n * 2 powi k) = Fin (of_int n * 2 powi k)"
proof -
  define a :: rat where "a = of_int n * 2 powi k"
  define e where "e = max (ilog2 \<bar>a\<bar>) (- 1022)"
  have a0: "0 < a" using assms(1) by (simp add: a_def)
  have n53: "(of_int n :: rat) < 2 powi 53"
    using assms(2) by (metis of_int_less_iff of_int_numeral of_int_power power_int_numeral)
  have "a < 2 powi 53 * 2 powi k"
    unfolding a_def using n53 by (intro mult_strict_right_mono) simp_all
  also have "\<dots> = 2 powi (53 + k)" by (simp add: power_int_add)
  finally have alt: "a < 2 powi (53 + k)" .
  have "2 powi (ilog2 a) \<le> a" by (rule ilog2_bounds [OF a0])
  also note alt
  finally have "ilog2 a < 53 + k" by (rule powi_less_cancel2)
  then have ek: "e - 52 \<le> k" using a0 assms(3) by (simp add: e_def)
  define z where "z = n * 2 ^ nat (k - (e - 52))"
  note z_def' = z_def
  define j where "j = nat (k - (e - 52))"
  have kj: "k = int j + (e - 52)" using ek by (simp add: j_def)
  have "(2::rat) powi (int j + (e - 52)) = 2 powi int j * 2 powi (e - 52)"
    by (rule power_int_add) simp
  then have p: "(2::rat) powi k = 2 ^ j * 2 powi (e - 52)"
    unfolding kj [symmetric] by simp
  have r: "of_int z * (2::rat) powi (e - 52) = a"
    unfolding a_def z_def j_def [symmetric] by (subst p) simp
  have q: "\<bar>a\<bar> / 2 powi (e - 52) = of_int z"
    using a0 r [symmetric] by simp
  have "(2::rat) powi (53 + k) \<le> 2 powi 1024" using assms(4) by (intro powi_mono2) simp
  with alt have "a < 2 powi 1024" by (rule less_le_trans)
  then have big: "\<not> 2 ^ 1024 \<le> a" by (simp add: not_le)
  have an0: "a \<noteq> 0" and nneg: "\<not> a < 0" using a0 by auto
  have "round64 a = Fin a"
    using round64_unfold [OF an0 refl refl, unfolded e_def [symmetric] q round_half_even_of_int r]
    by (simp only: big an0 nneg if_False)
  then show ?thesis by (simp only: a_def)
qed

lemma round64_5_2: "round64 (5 / 2) = Fin (5 / 2)"
  using round64_dyadic [of 5 "- 1"] by simp


subsection \<open>Decimal digits\<close>

lemma digits_of_lt10: "n < 10 \<Longrightarrow> digits_of n = [digit_char n]"
  by (subst digits_of.simps) simp

lemma digits_of_ge10: "10 \<le> n \<Longrightarrow> digits_of n = digits_of (n div 10) @ [digit_char (n mod 10)]"
  by (subst digits_of.simps) simp

lemma digits_of_nonempty [simp]: "digits_of n \<noteq> []"
  by (subst digits_of.simps) simp

lemma length_digits_of_pos [simp]: "0 < length (digits_of n)"
  by simp

lemma digits_of_bounds:
  "0 < n \<Longrightarrow> 10 ^ (length (digits_of n) - 1) \<le> n \<and> n < 10 ^ length (digits_of n)"
proof (induction n rule: digits_of.induct)
  case (1 n)
  show ?case
  proof (cases "n < 10")
    case True
    then show ?thesis using "1.prems" by (simp add: digits_of_lt10)
  next
    case False
    then have pos: "0 < n div 10" by simp
    from "1.IH"[OF False pos] have
      lo: "10 ^ (length (digits_of (n div 10)) - 1) \<le> n div 10"
      and hi: "n div 10 < 10 ^ length (digits_of (n div 10))" by auto
    have len: "length (digits_of n) = Suc (length (digits_of (n div 10)))"
      using False by (simp add: digits_of_ge10)
    obtain l where l: "length (digits_of (n div 10)) = Suc l"
      using length_digits_of_pos[of "n div 10"] by (cases "length (digits_of (n div 10))") auto
    have "10 * 10 ^ l \<le> 10 * (n div 10)" using lo l by simp
    also have "\<dots> \<le> n" by simp
    finally have A: "10 ^ (length (digits_of n) - 1) \<le> n" by (simp add: len l)
    have "Suc (n div 10) \<le> 10 ^ length (digits_of (n div 10))" using hi by simp
    then have "10 * Suc (n div 10) \<le> 10 * 10 ^ length (digits_of (n div 10))"
      by (rule mult_le_mono2)
    moreover have "n < 10 * Suc (n div 10)"
      by simp
    ultimately have B: "n < 10 ^ length (digits_of n)" by (simp add: len)
    from A B show ?thesis by simp
  qed
qed

lemma digit_count_unique:
  assumes "10 ^ (k - 1) \<le> (s::nat)" "s < 10 ^ k" "10 ^ (l - 1) \<le> s" "s < 10 ^ l" "0 < k" "0 < l"
  shows "k = l"
proof (rule ccontr)
  assume "k \<noteq> l"
  then consider "k < l" | "l < k" by linarith
  then show False
  proof cases
    case 1
    then have "k \<le> l - 1" by simp
    then have "(10::nat) ^ k \<le> 10 ^ (l - 1)" by (rule power_increasing) simp
    then show False using assms by linarith
  next
    case 2
    then have "l \<le> k - 1" by simp
    then have "(10::nat) ^ l \<le> 10 ^ (k - 1)" by (rule power_increasing) simp
    then show False using assms by linarith
  qed
qed

lemma digits_of_mult_pow10:
  "0 < a \<Longrightarrow> digits_of (a * 10 ^ t) = digits_of a @ replicate t 0x30"
proof (induction t)
  case 0
  then show ?case by simp
next
  case (Suc t)
  have ge: "10 \<le> a * 10 ^ Suc t" using Suc.prems by (simp add: Suc_le_eq)
  have "digits_of (a * 10 ^ Suc t) = digits_of (a * 10 ^ t) @ [digit_char 0]"
    using digits_of_ge10[OF ge] by simp
  then show ?case using Suc by (simp add: digit_char_def replicate_append_same)
qed

lemma trailing_zeros:
  "0 < (n::nat) \<Longrightarrow> \<exists>s t. n = s * 10 ^ t \<and> \<not> 10 dvd s \<and> 0 < s"
proof (induction n rule: less_induct)
  case (less n)
  show ?case
  proof (cases "10 dvd n")
    case False
    then have "n = n * 10 ^ 0 \<and> \<not> 10 dvd n \<and> 0 < n" using less.prems by simp
    then show ?thesis by blast
  next
    case True
    then obtain m where m: "n = 10 * m" by (auto simp: dvd_def)
    then have "m < n" "0 < m" using less.prems by auto
    from less.IH[OF this] obtain s t where "m = s * 10 ^ t" "\<not> 10 dvd s" "0 < s" by blast
    then have "n = s * 10 ^ Suc t \<and> \<not> 10 dvd s \<and> 0 < s" using m by simp
    then show ?thesis by blast
  qed
qed

lemma find_append_None:
  "List.find P xs = None \<Longrightarrow> List.find P (xs @ ys) = List.find P ys"
  by (induction xs) (auto split: if_splits)

lemma find_upt_first:
  assumes "a \<le> k" "k < b" "P k" "\<And>j. a \<le> j \<Longrightarrow> j < k \<Longrightarrow> \<not> P j"
  shows "List.find P [a..<b] = Some k"
proof -
  have "[a..<k + (b - k)] = [a..<k] @ [k..<k + (b - k)]"
    using assms(1) by (rule upt_add_eq_append)
  then have "[a..<b] = [a..<k] @ [k..<b]"
    using assms(2) by simp
  also have "[k..<b] = k # [Suc k..<b]" using assms(2) by (simp add: upt_conv_Cons)
  finally have "[a..<b] = [a..<k] @ k # [Suc k..<b]" .
  moreover have "List.find P [a..<k] = None" using assms(4) by (simp add: find_None_iff)
  ultimately show ?thesis using assms(3) by (simp add: find_append_None)
qed

subsection \<open>The shortest digits of an integer\<close>

lemma decimal_exponent_nat:
  "0 < n \<Longrightarrow> decimal_exponent (of_nat n) = int (length (digits_of n))"
  by (simp add: decimal_exponent_def Suc_le_eq)

lemma candidate_exact:
  assumes n: "0 < n" "n < 2 ^ 53"
    and s: "0 < s"
    and r: "round64 (of_int s * 10 powi int e) = Fin (of_nat n)"
  shows "s * 10 ^ e = int n"
proof -
  define v where "v = s * 10 ^ e"
  have v0: "0 < v" using s by (simp add: v_def)
  have r': "round64 (of_int v) = Fin (of_nat n)" using r by (simp add: v_def)
  show ?thesis
  proof (cases "v < 2 ^ 53")
    case True
    from round64_pos_exact[OF v0 True] r' have "(of_int v :: rat) = of_nat n" by simp
    then have "v = int n" by (metis of_int_eq_iff of_int_of_nat_eq)
    then show ?thesis by (simp add: v_def)
  next
    case False
    then have "(2::int) ^ 53 \<le> v" by simp
    then have "(of_int (2 ^ 53) :: rat) \<le> of_int v" by (simp only: of_int_le_iff)
    then have "(2::rat) ^ 53 \<le> of_int v" by simp
    from round64_large[OF this] r' obtain q where "(2::rat) ^ 53 \<le> q" "q = of_nat n"
      by auto
    then have "(of_nat (2 ^ 53) :: rat) \<le> of_nat n" by simp
    then have "2 ^ 53 \<le> n" by (simp only: of_nat_le_iff)
    then show ?thesis using n(2) by simp
  qed
qed

lemma pow10_cancel:
  assumes "s * 10 ^ e = (s0::nat) * 10 ^ t" "\<not> 10 dvd s0" "t \<le> e"
  shows "e = t \<and> s = s0"
proof -
  have "s * 10 ^ (e - t) * 10 ^ t = s0 * 10 ^ t"
    using assms(1,3) by (simp add: mult.assoc flip: power_add)
  then have eq: "s * 10 ^ (e - t) = s0" by simp
  have "e - t = 0"
  proof (rule ccontr)
    assume "e - t \<noteq> 0"
    then obtain j where "e - t = Suc j" by (cases "e - t") auto
    then have "s0 = 10 * (s * 10 ^ j)" using eq by simp
    then show False using assms(2) by (metis dvd_triv_left)
  qed
  then show ?thesis using eq assms(3) by simp
qed

text \<open>The candidates of an integer below 2^53: only its own digits without trailing zeros.\<close>

lemma candidate_iff:
  fixes n s0 t k :: nat and nn s :: int
  assumes n: "n = s0 * 10 ^ t" "\<not> 10 dvd s0" "0 < s0" "n < 2 ^ 53"
    and k: "0 < k" "k \<le> length (digits_of s0)"
    and nn: "int (length (digits_of n)) \<le> nn"
  shows "(10 ^ (k - 1) \<le> s \<and> s < 10 ^ k \<and>
          round64 (of_int s * 10 powi (nn - int k)) = Fin (of_nat n)) \<longleftrightarrow>
         (nn = int (length (digits_of n)) \<and> k = length (digits_of s0) \<and> s = int s0)"
    (is "?L \<longleftrightarrow> ?R")
proof -
  have n0: "0 < n" using n by simp
  have dn: "digits_of n = digits_of s0 @ replicate t 0x30"
    unfolding n(1) using n(3) by (rule digits_of_mult_pow10)
  then have len: "length (digits_of n) = length (digits_of s0) + t" by simp
  note b0 = digits_of_bounds[OF n(3)]
  show ?thesis
  proof
    assume L: ?L
    have "(0::int) < 10 ^ (k - 1)" by simp
    with L have s0': "0 < s" by linarith
    define e where "e = nat (nn - int k)"
    have e_ge: "t \<le> e" using nn k(2) len by (simp add: e_def)
    have e_eq: "nn - int k = int e" using nn k(2) len by (simp add: e_def)
    from L have "round64 (of_int s * 10 powi int e) = Fin (of_nat n)" by (simp add: e_eq)
    from candidate_exact[OF n0 n(4) s0' this] have "s * 10 ^ e = int (s0 * 10 ^ t)"
      by (simp add: n(1))
    then have "nat s * 10 ^ e = s0 * 10 ^ t"
      using s0' by (metis nat_int nat_mult_distrib nat_power_eq nat_numeral zero_le_numeral less_imp_le)
    from pow10_cancel[OF this n(2) e_ge] have et: "e = t" and ss: "nat s = s0" by auto
    have s_eq: "s = int s0" using ss s0' by simp
    from L have "10 ^ (k - 1) \<le> s" "s < 10 ^ k" by blast+
    then have "int (10 ^ (k - 1)) \<le> int s0" "int s0 < int (10 ^ k)"
      unfolding s_eq by simp_all
    then have "10 ^ (k - 1) \<le> s0" "s0 < 10 ^ k"
      by (simp_all only: of_nat_le_iff of_nat_less_iff)
    then have kk: "k = length (digits_of s0)"
      using b0 k(1) by (intro digit_count_unique[of k s0 "length (digits_of s0)"]) auto
    have "nn = int (length (digits_of n))" using e_eq et kk len by simp
    then show ?R using kk s_eq by simp
  next
    assume R: ?R
    then have e: "nn - int k = int t" using len by simp
    have "of_int s * 10 powi (nn - int k) = (of_int (int s0) * 10 ^ t :: rat)"
      using R unfolding e by simp
    also have "\<dots> = of_int (int n)" by (simp add: n(1))
    finally have "of_int s * 10 powi (nn - int k) = (of_int (int n) :: rat)" .
    moreover have "round64 (of_int (int n)) = Fin (of_int (int n))"
      using n0 n(4) by (intro round64_pos_exact) auto
    ultimately have "round64 (of_int s * 10 powi (nn - int k)) = Fin (of_nat n)" by simp
    moreover have "10 ^ (k - 1) \<le> s \<and> s < 10 ^ k"
    proof -
      from b0 R have "10 ^ (k - 1) \<le> s0" "s0 < 10 ^ k" by simp_all
      then have "int (10 ^ (k - 1)) \<le> int s0" "int s0 < int (10 ^ k)"
        by (simp_all only: of_nat_le_iff of_nat_less_iff)
      then show ?thesis using R by simp
    qed
    ultimately show ?L by simp
  qed
qed

lemma digit_candidates_nat:
  fixes n s0 t k :: nat
  assumes n: "n = s0 * 10 ^ t" "\<not> 10 dvd s0" "0 < s0" "n < 2 ^ 53"
    and k: "0 < k" "k \<le> length (digits_of s0)"
  shows "digit_candidates (of_nat n) k =
           (if k = length (digits_of s0) then [(int (length (digits_of n)), int s0)] else [])"
proof -
  define d where "d = length (digits_of n)"
  have n0: "0 < n" using n by simp
  have len: "d = length (digits_of s0) + t"
    unfolding d_def n(1) using n(3) by (simp add: digits_of_mult_pow10)
  define P where "P = (\<lambda>(nn, s). 10 ^ (k - 1) \<le> s \<and> s < 10 ^ k \<and>
          round64 (of_int s * 10 powi (nn - int k)) = Fin (of_nat n))"
  define f1 where "f1 = \<lfloor>(of_nat n :: rat) / 10 powi (int d - int k)\<rfloor>"
  define f2 where "f2 = \<lfloor>(of_nat n :: rat) / 10 powi (int d + 1 - int k)\<rfloor>"
  note ci = candidate_iff[OF n k, folded d_def]
  have c1: "P (int d, s) \<longleftrightarrow> k = length (digits_of s0) \<and> s = int s0" for s
    unfolding P_def prod.case using ci[of "int d" s] by simp
  have c2: "\<not> P (int d + 1, s)" for s
    unfolding P_def prod.case using ci[of "int d + 1" s] by simp
  have fl: "f1 = int s0" if "k = length (digits_of s0)"
  proof -
    from that have "int d - int k = int t" using len by simp
    then have "(of_nat n :: rat) / 10 powi (int d - int k) = of_nat s0"
      by (simp add: n(1))
    then show ?thesis by (simp add: f1_def)
  qed
  have "digit_candidates (of_nat n) k =
          filter P [(int d, f1), (int d, f1 + 1), (int d + 1, f2), (int d + 1, f2 + 1)]"
    unfolding digit_candidates_def decimal_exponent_nat[OF n0] d_def[symmetric] P_def f1_def f2_def
    by (simp only: Let_def list.map concat.simps append.simps)
  also have "\<dots> = (if k = length (digits_of s0) then [(int d, int s0)] else [])"
    using fl by (simp add: c1 c2)
  finally show ?thesis by (simp only: d_def)
qed

lemma digits_le_16:
  assumes "0 < n" "n < 2 ^ 53"
  shows "length (digits_of n) \<le> 16"
proof (rule ccontr)
  assume "\<not> length (digits_of n) \<le> 16"
  then have "16 \<le> length (digits_of n) - 1" by simp
  then have "(10::nat) ^ 16 \<le> 10 ^ (length (digits_of n) - 1)" by (rule power_increasing) simp
  also have "\<dots> \<le> n" using digits_of_bounds[OF assms(1)] by simp
  finally show False using assms(2) by simp
qed

lemma shortest_digits_nat:
  fixes n s0 t :: nat
  assumes n: "n = s0 * 10 ^ t" "\<not> 10 dvd s0" "0 < s0" "n < 2 ^ 53"
  shows "shortest_digits (of_nat n) = (int (length (digits_of n)), length (digits_of s0), int s0)"
proof -
  define k0 where "k0 = length (digits_of s0)"
  have n0: "0 < n" using n by simp
  have "length (digits_of n) = k0 + t"
    unfolding k0_def n(1) using n(3) by (simp add: digits_of_mult_pow10)
  then have k18: "k0 < 18" using digits_le_16[OF n0 n(4)] by simp
  have k1: "1 \<le> k0" unfolding k0_def by (simp add: Suc_le_eq)
  have at: "digit_candidates (of_nat n) k0 = [(int (length (digits_of n)), int s0)]"
    using digit_candidates_nat[OF n, of k0] k1 by (simp add: k0_def)
  have before: "\<And>j. 1 \<le> j \<Longrightarrow> j < k0 \<Longrightarrow> \<not> digit_candidates (of_nat n) j \<noteq> []"
    using digit_candidates_nat[OF n] by (simp add: k0_def)
  have "List.find (\<lambda>k. digit_candidates (of_nat n) k \<noteq> []) [1..<18] = Some k0"
    using k1 k18 _ before by (rule find_upt_first) (simp add: at)
  then have eq: "shortest_digits (of_nat n) =
      (let cs = digit_candidates (of_nat n) k0; b = foldl (closer (of_nat n) k0) (hd cs) (tl cs)
       in (fst b, k0, snd b))"
    unfolding shortest_digits_def by (simp only: option.case)
  show ?thesis unfolding eq at Let_def by (simp add: k0_def)
qed

lemma positive_toString_nat:
  assumes "0 < n" "n < 2 ^ 53"
  shows "positive_toString (of_nat n) = digits_of n"
proof -
  from trailing_zeros[OF assms(1)] obtain s0 t
    where n: "n = s0 * 10 ^ t" "\<not> 10 dvd s0" "0 < s0" by blast
  have dn: "digits_of n = digits_of s0 @ replicate t 0x30"
    unfolding n(1) using n(3) by (rule digits_of_mult_pow10)
  have l16: "length (digits_of n) \<le> 16" by (rule digits_le_16[OF assms])
  have len: "length (digits_of n) = length (digits_of s0) + t" by (simp add: dn)
  show ?thesis
    unfolding positive_toString_def shortest_digits_nat[OF n assms(2)] Let_def
    using l16 len by (simp add: dn)
qed

lemma Number_toString_int:
  assumes "\<bar>i\<bar> < 2 ^ 53"
  shows "Number_toString (Fin (of_int i)) =
           (if i < 0 then js ''-'' @ digits_of (nat (- i)) else digits_of (nat i))"
proof -
  consider "i = 0" | "0 < i" | "i < 0" by linarith
  then show ?thesis
  proof cases
    case 1
    then show ?thesis by (simp add: Number_toString_def digits_of_lt10 digit_char_def js_def)
  next
    case 2
    then have "positive_toString (of_nat (nat i)) = digits_of (nat i)"
      using assms by (intro positive_toString_nat) (auto simp: nat_less_iff)
    then show ?thesis using 2 by (simp add: Number_toString_def)
  next
    case 3
    then have "positive_toString (of_nat (nat (- i))) = digits_of (nat (- i))"
      using assms by (intro positive_toString_nat) (auto simp: nat_less_iff)
    then show ?thesis using 3 by (simp add: Number_toString_def)
  qed
qed

section \<open>Properties of the calculator\<close>

subsection \<open>Evaluating numbers and strings\<close>

lemma round64_numeral [simp]:
  "numeral w < (2::int) ^ 53 \<Longrightarrow> round64 (numeral w) = Fin (numeral w)"
  using round64_pos_exact[of "numeral w"] by simp

lemma round64_one [simp]: "round64 1 = Fin 1"
  using round64_pos_exact[of 1] by simp

lemma round64_zero [simp]: "round64 0 = Fin 0"
  by (simp add: round64_def)

lemma floor_rat_numeral [simp]:
  "\<lfloor>(numeral a :: rat) / numeral b\<rfloor> = numeral a div numeral b"
  using floor_divide_of_int_eq[of "numeral a" "numeral b", where ?'a = rat] by simp

lemma Number_toString_numeral:
  "numeral w < (2::int) ^ 53 \<Longrightarrow> Number_toString (Fin (numeral w)) = digits_of (numeral w)"
  using Number_toString_int[of "numeral w"] by simp

lemmas parse_defs = parseFloat_def unsigned_decimal_def exponent_part_def is_white_def
  is_digit_def digits_val_def digit_val_def js_def signed_inf_def Let_def

lemmas digit_simps = digits_of_lt10 digits_of_ge10 digit_char_def

lemmas num_eval = parse_defs toFixed_def fixed_text_def Number_toString_numeral digit_simps

lemmas calc_defs = compute_def appendNumber_def chooseOperation_def switch_operation_def
  Calculator_def isNaN_def is_zero_def is_inf_def is_neg_def num_val_def div_error_def
  includes_point_def num_add_def num_sub_def num_mul_def num_div_def num_neg_def
  signed_zero_def clear_def delete_def

lemma is_zero_not_NaN: "is_zero v \<Longrightarrow> \<not> isNaN v"
  by (auto simp add: is_zero_def isNaN_def)

subsection \<open>\<open>clear\<close>\<close>

text \<open>
  C9: \<open>clear()\<close> sets \<open>currentOperand\<close> to \<open>"0"\<close>, \<open>previousOperand\<close> to the empty string
  and the pending operator to none, and leaves the flag \<open>shouldResetScreen\<close> (the
  awaiting-reset flag) exactly as it was.
\<close>

theorem clear_resets_operands_keeps_flag:
  "currentOperand (clear c) = js ''0'' \<and> previousOperand (clear c) = [] \<and>
   operation (clear c) = None \<and> shouldResetScreen (clear c) = shouldResetScreen c"
  by (simp add: clear_def)

subsection \<open>\<open>appendNumber\<close>\<close>

lemma appendNumber_after_reset:
  "shouldResetScreen c \<Longrightarrow>
   appendNumber t c = c\<lparr>currentOperand := t, shouldResetScreen := False\<rparr>"
  by (simp add: appendNumber_def includes_point_def js_def)

text \<open>
  C6: the rules of \<open>appendNumber\<close> (the spec's \<open>appendDigit\<close>), for every state and
  token. With the flag \<open>shouldResetScreen\<close> set, the operand and the flag are cleared before
  anything else, so the call behaves as on the cleared state, and the token becomes the
  operand. With the flag unset: a point when the operand already has one changes nothing;
  a token other than the point replaces the operand \<open>"0"\<close>; in every other case the token
  is appended to the operand.
\<close>

theorem appendNumber_rules:
  "(shouldResetScreen c \<longrightarrow>
      appendNumber t c = appendNumber t (c\<lparr>currentOperand := [], shouldResetScreen := False\<rparr>) \<and>
      appendNumber t c = c\<lparr>currentOperand := t, shouldResetScreen := False\<rparr>) \<and>
   (\<not> shouldResetScreen c \<and> t = js ''.'' \<and> includes_point (currentOperand c) \<longrightarrow>
      appendNumber t c = c) \<and>
   (\<not> shouldResetScreen c \<and> t \<noteq> js ''.'' \<and> currentOperand c = js ''0'' \<longrightarrow>
      appendNumber t c = c\<lparr>currentOperand := t\<rparr>) \<and>
   (\<not> shouldResetScreen c \<and> \<not> (t = js ''.'' \<and> includes_point (currentOperand c)) \<and>
    \<not> (currentOperand c = js ''0'' \<and> t \<noteq> js ''.'') \<longrightarrow>
      appendNumber t c = c\<lparr>currentOperand := currentOperand c @ t\<rparr>)"
  by (auto simp add: appendNumber_def includes_point_def js_def)

theorem appendNumber_rules_witness:
  "appendNumber (js ''7'')
     \<lparr>currentOperand = js ''5'', previousOperand = [], operation = None,
      shouldResetScreen = True\<rparr> =
     \<lparr>currentOperand = js ''7'', previousOperand = [], operation = None,
      shouldResetScreen = False\<rparr> \<and>
   appendNumber (js ''.'')
     \<lparr>currentOperand = js ''1.5'', previousOperand = [], operation = None,
      shouldResetScreen = False\<rparr> =
     \<lparr>currentOperand = js ''1.5'', previousOperand = [], operation = None,
      shouldResetScreen = False\<rparr> \<and>
   appendNumber (js ''5'') Calculator = Calculator\<lparr>currentOperand := js ''5''\<rparr> \<and>
   appendNumber (js ''.'') (Calculator\<lparr>currentOperand := js ''12''\<rparr>) =
     Calculator\<lparr>currentOperand := js ''12.''\<rparr>"
  using
    appendNumber_rules [of "\<lparr>currentOperand = js ''5'', previousOperand = [], operation = None,
      shouldResetScreen = True\<rparr>" "js ''7''"]
    appendNumber_rules [of "\<lparr>currentOperand = js ''1.5'', previousOperand = [], operation = None,
      shouldResetScreen = False\<rparr>" "js ''.''"]
    appendNumber_rules [of Calculator "js ''5''"]
    appendNumber_rules [of "Calculator\<lparr>currentOperand := js ''12''\<rparr>" "js ''.''"]
  by (auto simp add: Calculator_def includes_point_def js_def)

subsection \<open>\<open>compute\<close>\<close>

lemma compute_unchanged_or_flagged:
  "compute c = c \<or> shouldResetScreen (compute c)"
  by (simp add: compute_def Let_def split: option.splits)

lemma compute_div_zero:
  assumes "operation c = Some (js ''/'') \<or> operation c = Some [0xF7]"
    and "\<not> isNaN (parseFloat (previousOperand c))"
    and "is_zero (parseFloat (currentOperand c))"
  shows "compute c = c\<lparr>currentOperand := div_error, operation := None,
                        previousOperand := [], shouldResetScreen := True\<rparr>"
proof -
  have sw: "switch_operation (operation c) (parseFloat (previousOperand c))
              (parseFloat (currentOperand c)) = Some (Text div_error)"
    using assms(1,3) by (auto simp add: switch_operation_def js_def)
  show ?thesis
    using assms(2) is_zero_not_NaN[OF assms(3)] by (simp add: compute_def Let_def sw)
qed

lemma parseFloat_6: "parseFloat (js ''6'') = Fin 6"
  by (simp add: parse_defs)

lemma parseFloat_0: "parseFloat (js ''0'') = Fin 0"
  by (simp add: parse_defs)

lemma parseFloat_div_error: "parseFloat div_error = NaN"
  by (simp add: div_error_def parse_defs)

text \<open>
  C4, as amended: in every state whose staged operator is the division (\<open>/\<close> or the
  division sign), whose previous operand parses to a number and whose current operand
  parses to zero, \<open>compute()\<close> stores the sentinel \<open>"Error: Div/0"\<close> as the current operand,
  clears the staged operator and the previous operand and sets \<open>shouldResetScreen\<close>; a
  following \<open>appendNumber("7")\<close> then starts the fresh operand \<open>"7"\<close>.
\<close>

theorem compute_div_by_zero_sentinel:
  assumes "operation c = Some (js ''/'') \<or> operation c = Some [0xF7]"
    and "\<not> isNaN (parseFloat (previousOperand c))"
    and "is_zero (parseFloat (currentOperand c))"
  shows "compute c = c\<lparr>currentOperand := div_error, operation := None,
                        previousOperand := [], shouldResetScreen := True\<rparr> \<and>
         appendNumber (js ''7'') (compute c) =
           c\<lparr>currentOperand := js ''7'', operation := None, previousOperand := [],
             shouldResetScreen := False\<rparr>"
  by (simp add: compute_div_zero[OF assms] appendNumber_after_reset)

theorem compute_div_by_zero_sentinel_witness:
  "\<not> isNaN (parseFloat (js ''6'')) \<and> is_zero (parseFloat (js ''0'')) \<and>
   compute \<lparr>currentOperand = js ''0'', previousOperand = js ''6'',
            operation = Some (js ''/''), shouldResetScreen = False\<rparr> =
     \<lparr>currentOperand = div_error, previousOperand = [], operation = None,
      shouldResetScreen = True\<rparr> \<and>
   appendNumber (js ''7'')
     (compute \<lparr>currentOperand = js ''0'', previousOperand = js ''6'',
               operation = Some (js ''/''), shouldResetScreen = False\<rparr>) =
     \<lparr>currentOperand = js ''7'', previousOperand = [], operation = None,
      shouldResetScreen = False\<rparr>"
proof -
  let ?c = "\<lparr>currentOperand = js ''0'', previousOperand = js ''6'',
             operation = Some (js ''/''), shouldResetScreen = False\<rparr>"
  have h1: "operation ?c = Some (js ''/'') \<or> operation ?c = Some [0xF7]" by simp
  have h2: "\<not> isNaN (parseFloat (previousOperand ?c))"
    by (simp add: parseFloat_6 isNaN_def)
  have h3: "is_zero (parseFloat (currentOperand ?c))"
    by (simp add: parseFloat_0 is_zero_def)
  note r = compute_div_by_zero_sentinel [OF h1 h2 h3]
  have a: "compute ?c = \<lparr>currentOperand = div_error, previousOperand = [], operation = None,
          shouldResetScreen = True\<rparr>"
    using r [THEN conjunct1] by simp
  have b: "appendNumber (js ''7'') (compute ?c) =
          \<lparr>currentOperand = js ''7'', previousOperand = [], operation = None,
           shouldResetScreen = False\<rparr>"
    using r [THEN conjunct2] by simp
  from h2 h3 a b show ?thesis by simp
qed

text \<open>
  C4, as stated, fails: after \<open>6 / 0 =\<close> the sentinel is the operand, and \<open>/ 0\<close> then stages
  the division with the sentinel as previous operand and \<open>"0"\<close> as current operand. The
  sentinel does not parse, so \<open>compute()\<close> returns at its guard: the operand stays \<open>"0"\<close>
  and \<open>shouldResetScreen\<close> stays unset.
\<close>

theorem compute_div_by_zero_counterexample:
  "presses [NumberKey (js ''6''), OperationKey (js ''/''), NumberKey (js ''0''), EqualsKey,
            OperationKey (js ''/''), NumberKey (js ''0'')] =
     \<lparr>currentOperand = js ''0'', previousOperand = div_error, operation = Some (js ''/''),
      shouldResetScreen = False\<rparr> \<and>
   is_zero (parseFloat (js ''0'')) \<and>
   currentOperand (compute \<lparr>currentOperand = js ''0'', previousOperand = div_error,
      operation = Some (js ''/''), shouldResetScreen = False\<rparr>) \<noteq> div_error \<and>
   \<not> shouldResetScreen (compute \<lparr>currentOperand = js ''0'', previousOperand = div_error,
      operation = Some (js ''/''), shouldResetScreen = False\<rparr>)"
  by (simp add: presses_def calc_defs num_eval)


subsection \<open>\<open>chooseOperation\<close>\<close>

lemma chooseOperation_pending:
  assumes "currentOperand c \<noteq> []" "previousOperand c \<noteq> []"
  shows "chooseOperation opr c =
           (compute c)\<lparr>operation := Some opr, previousOperand := currentOperand (compute c),
                        currentOperand := []\<rparr>"
  using assms by (simp add: chooseOperation_def Let_def)

lemma compute_add_1_2:
  "compute \<lparr>currentOperand = js ''2'', previousOperand = js ''1'',
            operation = Some (js ''+''), shouldResetScreen = False\<rparr> =
     \<lparr>currentOperand = js ''3'', previousOperand = [], operation = None,
      shouldResetScreen = True\<rparr>"
  by (simp add: calc_defs num_eval)

lemma compute_add_3_3:
  "compute \<lparr>currentOperand = js ''3'', previousOperand = js ''3'',
            operation = Some (js ''+''), shouldResetScreen = False\<rparr> =
     \<lparr>currentOperand = js ''6'', previousOperand = [], operation = None,
      shouldResetScreen = True\<rparr>"
  by (simp add: calc_defs num_eval)

lemma compute_mul_3_3:
  "compute \<lparr>currentOperand = js ''3'', previousOperand = js ''3'',
            operation = Some [0xD7], shouldResetScreen = False\<rparr> =
     \<lparr>currentOperand = js ''9'', previousOperand = [], operation = None,
      shouldResetScreen = True\<rparr>"
  by (simp add: calc_defs num_eval)

lemma presses_1_plus_2:
  "presses [NumberKey (js ''1''), OperationKey (js ''+''), NumberKey (js ''2'')] =
     \<lparr>currentOperand = js ''2'', previousOperand = js ''1'', operation = Some (js ''+''),
      shouldResetScreen = False\<rparr>"
  by (simp add: presses_def appendNumber_def chooseOperation_def Calculator_def
        includes_point_def js_def)

lemma presses_snoc: "presses (ks @ [k]) = press (presses ks) k"
  by (simp add: presses_def)

lemma presses_1_plus_2_op_3:
  "presses [NumberKey (js ''1''), OperationKey (js ''+''), NumberKey (js ''2''),
            OperationKey opr, NumberKey (js ''3'')] =
     \<lparr>currentOperand = js ''3'', previousOperand = js ''3'', operation = Some opr,
      shouldResetScreen = False\<rparr>"
proof -
  have "presses [NumberKey (js ''1''), OperationKey (js ''+''), NumberKey (js ''2''),
                 OperationKey opr] =
        \<lparr>currentOperand = [], previousOperand = js ''3'', operation = Some opr,
         shouldResetScreen = True\<rparr>"
    using presses_snoc [of "[NumberKey (js ''1''), OperationKey (js ''+''), NumberKey (js ''2'')]"
        "OperationKey opr"]
    by (simp add: presses_1_plus_2 chooseOperation_def compute_add_1_2) (simp add: js_def)
  then show ?thesis
    using presses_snoc [of "[NumberKey (js ''1''), OperationKey (js ''+''), NumberKey (js ''2''),
        OperationKey opr]" "NumberKey (js ''3'')"]
    by (simp add: appendNumber_after_reset)
qed

text \<open>
  C5: operator chaining folds left to right, without precedence. When \<open>chooseOperation\<close>
  is called with a pending pair of operands (both operand strings non-empty), it first
  performs \<open>compute()\<close> on the pair and then stages the new operator, with the result as
  previous operand. The keys \<open>1 + 2 + 3 =\<close> leave \<open>"6"\<close> as current operand, and
  \<open>1 + 2 \<times> 3 =\<close> leave \<open>"9"\<close>, the sum being taken before the product.
\<close>

theorem chooseOperation_folds_left:
  "(currentOperand c \<noteq> [] \<and> previousOperand c \<noteq> [] \<longrightarrow>
      chooseOperation opr c =
        (compute c)\<lparr>operation := Some opr, previousOperand := currentOperand (compute c),
                     currentOperand := []\<rparr>) \<and>
   currentOperand (presses [NumberKey (js ''1''), OperationKey (js ''+''), NumberKey (js ''2''),
      OperationKey (js ''+''), NumberKey (js ''3''), EqualsKey]) = js ''6'' \<and>
   currentOperand (presses [NumberKey (js ''1''), OperationKey (js ''+''), NumberKey (js ''2''),
      OperationKey [0xD7], NumberKey (js ''3''), EqualsKey]) = js ''9''"
proof -
  have "presses [NumberKey (js ''1''), OperationKey (js ''+''), NumberKey (js ''2''),
      OperationKey opr', NumberKey (js ''3''), EqualsKey] =
      compute \<lparr>currentOperand = js ''3'', previousOperand = js ''3'', operation = Some opr',
         shouldResetScreen = False\<rparr>" for opr'
    using presses_snoc [of "[NumberKey (js ''1''), OperationKey (js ''+''), NumberKey (js ''2''),
      OperationKey opr', NumberKey (js ''3'')]" EqualsKey]
    by (simp add: presses_1_plus_2_op_3)
  then show ?thesis
    by (simp add: chooseOperation_pending compute_add_3_3 compute_mul_3_3)
qed

theorem chooseOperation_folds_left_witness:
  "currentOperand \<lparr>currentOperand = js ''2'', previousOperand = js ''1'',
      operation = Some (js ''+''), shouldResetScreen = False\<rparr> \<noteq> [] \<and>
   previousOperand \<lparr>currentOperand = js ''2'', previousOperand = js ''1'',
      operation = Some (js ''+''), shouldResetScreen = False\<rparr> \<noteq> [] \<and>
   chooseOperation (js ''+'') \<lparr>currentOperand = js ''2'', previousOperand = js ''1'',
      operation = Some (js ''+''), shouldResetScreen = False\<rparr> =
     \<lparr>currentOperand = [], previousOperand = js ''3'', operation = Some (js ''+''),
      shouldResetScreen = True\<rparr>"
proof -
  let ?c = "\<lparr>currentOperand = js ''2'', previousOperand = js ''1'',
             operation = Some (js ''+''), shouldResetScreen = False\<rparr>"
  have h: "currentOperand ?c \<noteq> [] \<and> previousOperand ?c \<noteq> []" by (simp add: js_def)
  from chooseOperation_folds_left [of ?c "js ''+''", THEN conjunct1, rule_format, OF h]
  have "chooseOperation (js ''+'') ?c =
     \<lparr>currentOperand = [], previousOperand = js ''3'', operation = Some (js ''+''),
      shouldResetScreen = True\<rparr>"
    by (simp add: compute_add_1_2)
  with h show ?thesis by simp
qed

subsection \<open>\<open>delete\<close>\<close>

lemma compute_add_2_3:
  "compute \<lparr>currentOperand = js ''3'', previousOperand = js ''2'',
            operation = Some (js ''+''), shouldResetScreen = False\<rparr> =
     \<lparr>currentOperand = js ''5'', previousOperand = [], operation = None,
      shouldResetScreen = True\<rparr>"
  by (simp add: calc_defs num_eval)

text \<open>
  C10: \<open>delete()\<close> (the spec's \<open>deleteLast\<close>) changes \<open>currentOperand\<close> only: the previous
  operand, the pending operator and the flag \<open>shouldResetScreen\<close> are as before. So in a
  state with the flag set, and in particular in any state that \<open>compute()\<close> has just
  changed, a \<open>delete()\<close> followed by \<open>appendNumber(t)\<close> discards the edited result: the
  operand is the token \<open>t\<close> alone.
\<close>

theorem delete_changes_operand_only:
  "previousOperand (delete c) = previousOperand c \<and>
   operation (delete c) = operation c \<and>
   shouldResetScreen (delete c) = shouldResetScreen c \<and>
   (shouldResetScreen c \<longrightarrow>
      appendNumber t (delete c) = c\<lparr>currentOperand := t, shouldResetScreen := False\<rparr>) \<and>
   (compute c \<noteq> c \<longrightarrow>
      appendNumber t (delete (compute c)) =
        (compute c)\<lparr>currentOperand := t, shouldResetScreen := False\<rparr>)"
proof -
  have frame: "previousOperand (delete c') = previousOperand c' \<and>
      operation (delete c') = operation c' \<and>
      shouldResetScreen (delete c') = shouldResetScreen c'" for c'
    by (simp add: delete_def)
  have fresh: "appendNumber t (delete c') = c'\<lparr>currentOperand := t, shouldResetScreen := False\<rparr>"
    if "shouldResetScreen c'" for c'
    using that by (simp add: appendNumber_after_reset delete_def)
  show ?thesis
    using frame [of c] fresh [of c] fresh [of "compute c"] compute_unchanged_or_flagged [of c]
    by blast
qed

theorem delete_changes_operand_only_witness:
  "compute \<lparr>currentOperand = js ''3'', previousOperand = js ''2'',
            operation = Some (js ''+''), shouldResetScreen = False\<rparr> =
     \<lparr>currentOperand = js ''5'', previousOperand = [], operation = None,
      shouldResetScreen = True\<rparr> \<and>
   delete \<lparr>currentOperand = js ''5'', previousOperand = [], operation = None,
      shouldResetScreen = True\<rparr> =
     \<lparr>currentOperand = js ''0'', previousOperand = [], operation = None,
      shouldResetScreen = True\<rparr> \<and>
   appendNumber (js ''7'')
     (delete (compute \<lparr>currentOperand = js ''3'', previousOperand = js ''2'',
            operation = Some (js ''+''), shouldResetScreen = False\<rparr>)) =
     \<lparr>currentOperand = js ''7'', previousOperand = [], operation = None,
      shouldResetScreen = False\<rparr> \<and>
   appendNumber (js ''7'')
     (delete \<lparr>currentOperand = js ''5'', previousOperand = [], operation = None,
      shouldResetScreen = True\<rparr>) =
     \<lparr>currentOperand = js ''7'', previousOperand = [], operation = None,
      shouldResetScreen = False\<rparr>"
proof -
  let ?c = "\<lparr>currentOperand = js ''3'', previousOperand = js ''2'',
             operation = Some (js ''+''), shouldResetScreen = False\<rparr>"
  let ?r = "\<lparr>currentOperand = js ''5'', previousOperand = [], operation = None,
             shouldResetScreen = True\<rparr>"
  have h1: "compute ?c \<noteq> ?c" by (simp add: compute_add_2_3)
  have h2: "shouldResetScreen ?r" by simp
  note th1 = delete_changes_operand_only [of ?c "js ''7''"]
  note th2 = delete_changes_operand_only [of ?r "js ''7''"]
  have a: "appendNumber (js ''7'') (delete (compute ?c)) =
      \<lparr>currentOperand = js ''7'', previousOperand = [], operation = None,
       shouldResetScreen = False\<rparr>"
    using th1 h1 by (simp add: compute_add_2_3)
  have b: "appendNumber (js ''7'') (delete ?r) =
      \<lparr>currentOperand = js ''7'', previousOperand = [], operation = None,
       shouldResetScreen = False\<rparr>"
    using th2 h2 by simp
  have c: "delete ?r = \<lparr>currentOperand = js ''0'', previousOperand = [], operation = None,
      shouldResetScreen = True\<rparr>"
    by (simp add: delete_def js_def)
  from a b c show ?thesis by (simp add: compute_add_2_3)
qed

subsection \<open>\<open>getDisplayNumber\<close>\<close>

lemma split_point_no_point: "0x2E \<notin> set s \<Longrightarrow> split_point s = [s]"
  by (induction s) auto

lemma split_point_at_point:
  "0x2E \<notin> set i \<Longrightarrow> split_point (i @ 0x2E # f) = i # split_point f"
  by (induction i) auto

lemma split_point_not_Nil: "split_point s \<noteq> []"
  by (induction s) (auto split: list.splits)

lemma div_error_no_point: "0x2E \<notin> set div_error"
  by (simp add: div_error_def js_def)

text \<open>
  C8: \<open>getDisplayNumber\<close> (the spec's \<open>formatForDisplay\<close>) returns the error sentinel
  unchanged. Any other operand is split at the decimal point: the integer part \<open>i\<close> is
  parsed and formatted by the locale formatting \<open>toLocaleString\<close> (which groups the
  thousands; an integer part that is not a number is shown as the empty string), and the
  fractional part \<open>f\<close> is attached again after a point exactly as it was, also when it is
  empty, so that \<open>"12."\<close> keeps its trailing point. An operand without a point is shown as
  its formatted integer part. Operands hold at most one point, so neither part has one.
\<close>

theorem getDisplayNumber_format:
  "getDisplayNumber toLocaleString div_error = div_error \<and>
   (0x2E \<notin> set i \<and> 0x2E \<notin> set f \<longrightarrow>
      getDisplayNumber toLocaleString (i @ js ''.'' @ f) =
        (if isNaN (parseFloat i) then [] else toLocaleString (parseFloat i)) @ js ''.'' @ f) \<and>
   (0x2E \<notin> set s \<and> s \<noteq> div_error \<longrightarrow>
      getDisplayNumber toLocaleString s =
        (if isNaN (parseFloat s) then [] else toLocaleString (parseFloat s)))"
proof -
  have a: "getDisplayNumber toLocaleString div_error = div_error"
    by (simp add: getDisplayNumber_def)
  have b: "getDisplayNumber toLocaleString (i @ js ''.'' @ f) =
        (if isNaN (parseFloat i) then [] else toLocaleString (parseFloat i)) @ js ''.'' @ f"
    if "0x2E \<notin> set i" "0x2E \<notin> set f"
  proof -
    have "0x2E \<in> set (i @ js ''.'' @ f)" by (simp add: js_def)
    then have ne: "i @ js ''.'' @ f \<noteq> div_error"
      using div_error_no_point by metis
    have sp: "split_point (i @ js ''.'' @ f) = [i, f]"
      using that by (simp add: js_def split_point_at_point split_point_no_point)
    show ?thesis using ne by (simp add: getDisplayNumber_def sp index_def Let_def)
  qed
  have c: "getDisplayNumber toLocaleString s =
        (if isNaN (parseFloat s) then [] else toLocaleString (parseFloat s))"
    if "0x2E \<notin> set s" "s \<noteq> div_error"
    using that by (simp add: getDisplayNumber_def split_point_no_point index_def Let_def)
  from a b c show ?thesis by blast
qed

theorem getDisplayNumber_format_witness:
  "getDisplayNumber Number_toString (js ''12.'') = js ''12.'' \<and>
   getDisplayNumber Number_toString (js ''12.50'') = js ''12.50'' \<and>
   getDisplayNumber Number_toString (js ''.5'') = js ''.5'' \<and>
   getDisplayNumber Number_toString (js ''007'') = js ''7''"
proof -
  have p12: "parseFloat (js ''12'') = Fin 12" by (simp add: parse_defs)
  have p7: "parseFloat (js ''007'') = Fin 7" by (simp add: parse_defs)
  have pe: "parseFloat [] = NaN" by (simp add: parse_defs)
  have t12: "Number_toString (Fin 12) = js ''12''"
    by (simp add: Number_toString_numeral digit_simps js_def)
  have t7: "Number_toString (Fin 7) = js ''7''"
    by (simp add: Number_toString_numeral digit_simps js_def)
  have a: "getDisplayNumber Number_toString (js ''12'' @ js ''.'' @ []) = js ''12'' @ js ''.'' @ []"
    using getDisplayNumber_format [of Number_toString "js ''12''" "[]"]
    by (simp add: p12 t12 isNaN_def) (simp add: js_def)
  have b: "getDisplayNumber Number_toString (js ''12'' @ js ''.'' @ js ''50'') =
      js ''12'' @ js ''.'' @ js ''50''"
    using getDisplayNumber_format [of Number_toString "js ''12''" "js ''50''"]
    by (simp add: p12 t12 isNaN_def) (simp add: js_def)
  have c: "getDisplayNumber Number_toString ([] @ js ''.'' @ js ''5'') = [] @ js ''.'' @ js ''5''"
    using getDisplayNumber_format [of Number_toString "[]" "js ''5''"]
    by (simp add: pe isNaN_def) (simp add: js_def)
  have d: "getDisplayNumber Number_toString (js ''007'') = js ''7''"
    using getDisplayNumber_format [of Number_toString _ _ "js ''007''"]
    by (simp add: p7 t7 isNaN_def) (simp add: js_def div_error_def)
  from a b c d show ?thesis by (simp add: js_def)
qed


section \<open>Properties of the dynamic list\<close>

lemma ListItem_iff:
  "ListItem j \<longleftrightarrow>
     (\<exists>n t d v c. j = JObj [(js ''id'', JNum n), (js ''title'', JStr t), (js ''description'', JStr d),
        (js ''value'', JStr v), (js ''createdAt'', JStr c)] \<and> time_value n)"
  by (auto simp add: ListItem_def split: json.splits list.splits prod.splits)

lemma bind_Inr [simp]: "bind (Inr x) f = f x"
  by (simp add: bind_def)

lemma bind_Inl [simp]: "bind (Inl e) f = Inl e"
  by (simp add: bind_def)

lemma createItemElement_ListItem:
  "createItemElement p r (JObj [(js ''id'', JNum n), (js ''title'', JStr t), (js ''description'', JStr d),
        (js ''value'', JStr v), (js ''createdAt'', JStr c)]) =
   Inr \<lparr>datasetId = Number_toString n,
        borderColor = (case palette_color r of Some c \<Rightarrow> c | None \<Rightarrow> js ''undefined''),
        titleText = (if t = [] then js ''Sin t'' @ [0xED] @ js ''tulo'' else t),
        dateText = toLocaleDateString p (Some (JStr c)),
        descriptionText = (if d = [] then js ''Sin descripci'' @ [0xF3] @ js ''n'' else d),
        valueText = (if v = [] then None else Some v),
        deleteDataId = Number_toString n,
        deleteTarget = Some (JNum n)\<rparr>"
  by (simp add: createItemElement_def get_prop_def ToString_opt_def or_default_def truthy_def
      date_text_def js_def)

lemma createItemElement_returns:
  "ListItem x \<Longrightarrow> \<exists>c. createItemElement p r x = Inr c"
  by (auto simp add: ListItem_iff createItemElement_ListItem)

lemma create_cards_returns:
  "\<forall>x\<in>set xs. ListItem x \<Longrightarrow> \<exists>cs. create_cards p n xs = Inr cs"
proof (induction xs arbitrary: n)
  case Nil
  then show ?case by simp
next
  case (Cons x xs)
  from Cons.prems obtain c where "createItemElement p (random p n) x = Inr c"
    using createItemElement_returns by (metis list.set_intros(1))
  moreover from Cons obtain cs where "create_cards p (Suc n) xs = Inr cs"
    by (metis list.set_intros(2))
  ultimately show ?case by simp
qed

lemma render_returns:
  assumes "items l = JArr xs" "\<forall>x\<in>set xs. ListItem x"
  shows "\<exists>l'. render p l = Inr l' \<and> items l' = items l \<and> savedItems l' = savedItems l"
proof (cases "container l")
  case False
  then show ?thesis by (simp add: render_def)
next
  case True
  show ?thesis
  proof (cases "xs = []")
    case e: True
    then show ?thesis using True assms(1)
      by (simp add: render_def length_is_zero_def showEmptyMessage_def Let_def)
  next
    case ne: False
    obtain cs where "create_cards p (randomCalls l) xs = Inr cs"
      using create_cards_returns [OF assms(2)] by blast
    then show ?thesis using True assms(1) ne
      by (simp add: render_def length_is_zero_def hideEmptyMessage_def Let_def)
  qed
qed

lemma ListItem_get_id:
  "ListItem x \<Longrightarrow> \<exists>v. get_prop x (js ''id'') = Inr v"
  by (auto simp add: ListItem_iff get_prop_def)

lemma filter_items_filter:
  "\<forall>x\<in>set xs. x \<noteq> JNull \<Longrightarrow>
   filter_items i xs = Inr (filter (\<lambda>x. \<not> has_id i x) xs)"
proof (induction xs)
  case Nil
  then show ?case by simp
next
  case (Cons x xs)
  then have x: "x \<noteq> JNull" by simp
  then obtain v where v: "get_prop x (js ''id'') = Inr v"
    by (cases x) (auto simp add: get_prop_def)
  show ?case using Cons v by (simp add: has_id_def)
qed

lemma filter_items_Inr:
  "filter_items i xs = Inr ys \<Longrightarrow> ys = filter (\<lambda>x. \<not> has_id i x) xs"
proof (induction xs arbitrary: ys)
  case Nil
  then show ?case by simp
next
  case (Cons x xs)
  then show ?case
    by (auto simp add: bind_def has_id_def split: sum.splits if_splits)
qed

lemma ListItem_not_null: "ListItem x \<Longrightarrow> x \<noteq> JNull"
  by (auto simp add: ListItem_iff)

lemma filter_single:
  assumes "P x" "\<forall>y\<in>set as \<union> set bs. \<not> P y"
  shows "filter (\<lambda>y. \<not> P y) (as @ x # bs) = as @ bs"
  using assms by (simp add: filter_id_conv)

lemma removeItem_items:
  assumes "items l = JArr xs" "removeItem p i l = Inr l'"
  shows "items l' = JArr (filter (\<lambda>x. \<not> has_id i x) xs)"
proof -
  from assms obtain kept where k: "filter_items i xs = Inr kept"
    and r: "render p (saveToLocalStorage (l\<lparr>items := JArr kept\<rparr>)) = Inr l'"
    by (auto simp add: removeItem_def bind_def split: sum.splits)
  have "items l' = JArr kept"
    using r
    by (auto simp add: render_def bind_def Let_def saveToLocalStorage_def showEmptyMessage_def
        hideEmptyMessage_def split: if_splits sum.splits json.splits)
  then show ?thesis using filter_items_Inr [OF k] by simp
qed

lemma ListItem_filter: "\<forall>x\<in>set xs. ListItem x \<Longrightarrow> \<forall>x\<in>set (filter P xs). ListItem x"
  by simp

lemma removeItem_returns:
  assumes "items l = JArr xs" "\<forall>x\<in>set xs. ListItem x"
  shows "\<exists>l'. removeItem p i l = Inr l'"
proof -
  let ?kept = "filter (\<lambda>x. \<not> has_id i x) xs"
  have nn: "\<forall>x\<in>set xs. x \<noteq> JNull" using assms(2) ListItem_not_null by blast
  have k: "filter_items i xs = Inr ?kept" by (rule filter_items_filter [OF nn])
  have "\<forall>x\<in>set ?kept. ListItem x" using assms(2) by simp
  from render_returns [of "saveToLocalStorage (l\<lparr>items := JArr ?kept\<rparr>)" ?kept, OF _ this]
  obtain l' where "render p (saveToLocalStorage (l\<lparr>items := JArr ?kept\<rparr>)) = Inr l'"
    by (auto simp add: saveToLocalStorage_def)
  then show ?thesis using assms(1) k by (simp add: removeItem_def)
qed

text \<open>
  C3, as amended: when \<open>removeItem(id)\<close> returns, the sequence is the old one without the
  records whose id is \<open>id\<close>, all of them, the other records in their order. So exactly one
  record is removed when exactly one matches (as when the ids are unique), and the
  sequence is unchanged when none matches. On a sequence of \<open>ListItem\<close> records the call
  returns.
\<close>

theorem removeItem_removes_all_matching:
  "(items l = JArr xs \<and> removeItem p i l = Inr l' \<longrightarrow>
      items l' = JArr (filter (\<lambda>x. \<not> has_id i x) xs) \<and>
      (\<forall>as x bs. xs = as @ x # bs \<and> has_id i x \<and> (\<forall>y\<in>set as \<union> set bs. \<not> has_id i y) \<longrightarrow>
         items l' = JArr (as @ bs)) \<and>
      ((\<forall>y\<in>set xs. \<not> has_id i y) \<longrightarrow> items l' = JArr xs)) \<and>
   (items l = JArr xs \<and> (\<forall>x\<in>set xs. ListItem x) \<longrightarrow> (\<exists>l''. removeItem p i l = Inr l''))"
proof -
  have A: "items l' = JArr (filter (\<lambda>x. \<not> has_id i x) xs) \<and>
      (\<forall>as x bs. xs = as @ x # bs \<and> has_id i x \<and> (\<forall>y\<in>set as \<union> set bs. \<not> has_id i y) \<longrightarrow>
         items l' = JArr (as @ bs)) \<and>
      ((\<forall>y\<in>set xs. \<not> has_id i y) \<longrightarrow> items l' = JArr xs)"
    if h: "items l = JArr xs" "removeItem p i l = Inr l'"
  proof -
    note f = removeItem_items [OF h]
    have "items l' = JArr (as @ bs)"
      if "xs = as @ x # bs" "has_id i x" "\<forall>y\<in>set as \<union> set bs. \<not> has_id i y" for as x bs
      using f that filter_single [of "has_id i" x as bs] by simp
    moreover have "items l' = JArr xs" if "\<forall>y\<in>set xs. \<not> has_id i y"
      using f that by (simp add: filter_id_conv)
    ultimately show ?thesis using f by blast
  qed
  show ?thesis using A removeItem_returns [of l xs p i] by blast
qed

lemma array_index_not_digit:
  "k \<noteq> [] \<Longrightarrow> \<not> is_digit (hd k) \<Longrightarrow> array_index k = None"
  by (cases k) (auto simp add: array_index_def)

lemma set_prop_new:
  "k \<notin> fst ` set ps \<Longrightarrow> array_index k = None \<Longrightarrow> set_prop ps k v = ps @ [(k, v)]"
  by (simp add: set_prop_def)

lemma ai_title: "array_index (js ''title'') = None"
  by (rule array_index_not_digit) (simp_all add: js_def is_digit_def)
lemma ai_description: "array_index (js ''description'') = None"
  by (rule array_index_not_digit) (simp_all add: js_def is_digit_def)
lemma ai_value: "array_index (js ''value'') = None"
  by (rule array_index_not_digit) (simp_all add: js_def is_digit_def)
lemma ai_createdAt: "array_index (js ''createdAt'') = None"
  by (rule array_index_not_digit) (simp_all add: js_def is_digit_def)
lemma ai_id: "array_index (js ''id'') = None"
  by (rule array_index_not_digit) (simp_all add: js_def is_digit_def)

lemma new_item_formData:
  "new_item now isoText (formData t d v) =
     JObj [(js ''id'', JNum now), (js ''title'', JStr t), (js ''description'', JStr d),
           (js ''value'', JStr v), (js ''createdAt'', JStr isoText)]"
proof -
  have 1: "set_prop [(js ''id'', JNum now)] (js ''title'') (JStr t) =
      [(js ''id'', JNum now), (js ''title'', JStr t)]"
    by (subst set_prop_new) (simp_all add: ai_title, simp add: js_def)
  have 2: "set_prop [(js ''id'', JNum now), (js ''title'', JStr t)] (js ''description'') (JStr d) =
      [(js ''id'', JNum now), (js ''title'', JStr t), (js ''description'', JStr d)]"
    by (subst set_prop_new) (simp_all add: ai_description, simp add: js_def)
  have 3: "set_prop [(js ''id'', JNum now), (js ''title'', JStr t), (js ''description'', JStr d)]
      (js ''value'') (JStr v) =
      [(js ''id'', JNum now), (js ''title'', JStr t), (js ''description'', JStr d),
       (js ''value'', JStr v)]"
    by (subst set_prop_new) (simp_all add: ai_value, simp add: js_def)
  have 4: "set_prop [(js ''id'', JNum now), (js ''title'', JStr t), (js ''description'', JStr d),
       (js ''value'', JStr v)] (js ''createdAt'') (JStr isoText) =
      [(js ''id'', JNum now), (js ''title'', JStr t), (js ''description'', JStr d),
       (js ''value'', JStr v), (js ''createdAt'', JStr isoText)]"
    by (subst set_prop_new) (simp_all add: ai_createdAt, simp add: js_def)
  show ?thesis by (simp add: new_item_def formData_def 1 2 3 4)
qed

lemma ListItem_new_item:
  "time_value now \<Longrightarrow> ListItem (new_item now isoText (formData t d v))"
  by (auto simp add: new_item_formData ListItem_iff)

lemma render_items:
  "render p l = Inr l' \<Longrightarrow> items l' = items l"
  by (auto simp add: render_def bind_def Let_def showEmptyMessage_def
        hideEmptyMessage_def split: if_splits sum.splits json.splits)

lemma addItem_ListItems:
  assumes "items l = JArr xs" "\<forall>x\<in>set xs. ListItem x" "time_value now"
  shows "\<exists>l'. addItem p now isoText (formData t d v) l =
            Inr (new_item now isoText (formData t d v), l') \<and>
          items l' = JArr (new_item now isoText (formData t d v) # xs)"
proof -
  let ?n = "new_item now isoText (formData t d v)"
  let ?l = "saveToLocalStorage (l\<lparr>items := JArr (?n # xs)\<rparr>)"
  have i: "items ?l = JArr (?n # xs)" by (simp add: saveToLocalStorage_def)
  have "\<forall>x\<in>set (?n # xs). ListItem x"
    using assms(2) ListItem_new_item [OF assms(3)] by simp
  from render_returns [OF i this] obtain l' where "render p ?l = Inr l'" "items l' = items ?l"
    by blast
  then show ?thesis using assms(1) i by (simp add: addItem_def)
qed

lemma time_value_5: "time_value (Fin 5)"
  by (simp add: time_value_def)

lemma item_a_eq: "new_item (Fin 5) (js ''2025-01-01T00:00:00.000Z'') (formData (js ''a'') [] []) = item_a"
  by (simp add: new_item_formData item_a_def)

lemma item_b_eq: "new_item (Fin 5) (js ''2025-01-01T00:00:00.000Z'') (formData (js ''b'') [] []) = item_b"
  by (simp add: new_item_formData item_b_def)

lemma ListItem_a: "ListItem item_a"
  using ListItem_new_item [OF time_value_5] item_a_eq by metis

lemma ListItem_b: "ListItem item_b"
  using ListItem_new_item [OF time_value_5] item_b_eq by metis

lemma has_id_a: "has_id (Fin 5) item_a"
  by (simp add: has_id_def item_a_def get_prop_def strict_equal_num_def js_def)

lemma has_id_b: "has_id (Fin 5) item_b"
  by (simp add: has_id_def item_b_def get_prop_def strict_equal_num_def js_def)

lemma added_twice_items:
  "\<exists>l. added_twice = Inr l \<and> items l = JArr [item_b, item_a]"
proof -
  let ?l0 = "DynamicList\<lparr>containerId := js ''lista-dinamica'', container := True, emptyMessage := True\<rparr>"
  have 0: "init platform0 (js ''lista-dinamica'') DynamicList = Inr ?l0"
    by (simp add: init_def platform0_def DynamicList_def Let_def)
  have i0: "items ?l0 = JArr []" by (simp add: DynamicList_def)
  from addItem_ListItems [OF i0 _ time_value_5, of platform0 "js ''2025-01-01T00:00:00.000Z''" "js ''a''" "[]" "[]"]
  obtain l1 where 1: "addItem platform0 (Fin 5) (js ''2025-01-01T00:00:00.000Z'')
             (formData (js ''a'') [] []) ?l0 = Inr (item_a, l1)" and i1: "items l1 = JArr [item_a]"
    by (auto simp add: item_a_eq)
  have "\<forall>x\<in>set [item_a]. ListItem x" using ListItem_a by simp
  from addItem_ListItems [OF i1 this time_value_5, of platform0 "js ''2025-01-01T00:00:00.000Z''" "js ''b''" "[]" "[]"]
  obtain l2 where 2: "addItem platform0 (Fin 5) (js ''2025-01-01T00:00:00.000Z'')
             (formData (js ''b'') [] []) l1 = Inr (item_b, l2)" and i2: "items l2 = JArr [item_b, item_a]"
    by (auto simp add: item_b_eq)
  show ?thesis by (simp add: added_twice_def 0 1 2 i2)
qed

text \<open>
  C3, as stated, fails: after two submissions within one millisecond the sequence holds
  two records with the id \<open>5\<close>, and \<open>removeItem(5)\<close> removes both, not the first alone.
\<close>

theorem removeItem_counterexample:
  "result_items added_twice = Inr (JArr [item_b, item_a]) \<and>
   has_id (Fin 5) item_b \<and> has_id (Fin 5) item_a \<and>
   result_items (bind added_twice (removeItem platform0 (Fin 5))) = Inr (JArr [])"
proof -
  from added_twice_items obtain l where l: "added_twice = Inr l" "items l = JArr [item_b, item_a]"
    by blast
  have li: "\<forall>x\<in>set [item_b, item_a]. ListItem x" using ListItem_a ListItem_b by simp
  from removeItem_returns [OF l(2) li] obtain l' where r: "removeItem platform0 (Fin 5) l = Inr l'"
    by blast
  from removeItem_items [OF l(2) r] have "items l' = JArr []"
    by (simp add: has_id_a has_id_b)
  then show ?thesis unfolding l(1) using l(2) r by (simp add: result_items_def has_id_a has_id_b)
qed

lemma map_sum_bind: "map_sum id f (bind m g) = bind m (\<lambda>x. map_sum id f (g x))"
  by (cases m) simp_all

lemma date_text_cong:
  "toLocaleDateString p' = toLocaleDateString p \<Longrightarrow> date_text p' v = date_text p v"
  unfolding date_text_def by (simp only:)

lemma createItemElement_descriptor:
  assumes "toLocaleDateString p' = toLocaleDateString p"
  shows "map_sum id descriptor (createItemElement p' r' x) =
         map_sum id descriptor (createItemElement p r x)"
  by (simp add: createItemElement_def map_sum_bind descriptor_def date_text_cong [OF assms])

lemma create_cards_descriptors:
  assumes "toLocaleDateString p' = toLocaleDateString p"
  shows "map_sum id (map descriptor) (create_cards p' n' xs) =
         map_sum id (map descriptor) (create_cards p n xs)"
proof (induction xs arbitrary: n n')
  case Nil
  then show ?case by simp
next
  case (Cons x xs)
  have c: "map_sum id descriptor (createItemElement p' (random p' n') x) =
        map_sum id descriptor (createItemElement p (random p n) x)"
    by (rule createItemElement_descriptor [OF assms])
  show ?case
  proof (cases "createItemElement p (random p n) x")
    case (Inl e)
    with c have "createItemElement p' (random p' n') x = Inl e"
      by (cases "createItemElement p' (random p' n') x") simp_all
    with Inl show ?thesis by simp
  next
    case (Inr a)
    with c obtain a' where a': "createItemElement p' (random p' n') x = Inr a'"
      "descriptor a' = descriptor a"
      by (cases "createItemElement p' (random p' n') x") simp_all
    from Cons.IH [of "Suc n'" "Suc n"] show ?thesis
      using Inr a'
      by (cases "create_cards p (Suc n) xs"; cases "create_cards p' (Suc n') xs") simp_all
  qed
qed

lemma rendered_render:
  assumes "container l"
  shows "rendered (render p l) =
     bind (length_is_zero (items l)) (\<lambda>empty.
       if empty then Inr []
       else (case items l of
               JArr xs \<Rightarrow> map_sum id (map descriptor) (create_cards p (randomCalls l) xs)
             | _ \<Rightarrow> Inl TypeError))"
proof (cases "length_is_zero (items l)")
  case (Inl e)
  then show ?thesis using assms by (simp add: render_def rendered_def Let_def)
next
  case (Inr b)
  show ?thesis
  proof (cases b)
    case True
    then show ?thesis using assms Inr
      by (simp add: render_def rendered_def Let_def showEmptyMessage_def)
  next
    case False
    show ?thesis
    proof (cases "items l")
      case (JArr xs)
      then show ?thesis using assms Inr False
        by (cases "create_cards p (randomCalls l) xs")
           (simp_all add: render_def rendered_def Let_def hideEmptyMessage_def)
    qed (use assms Inr False in \<open>simp_all add: render_def rendered_def Let_def hideEmptyMessage_def\<close>)
  qed
qed

lemma render_container: "render p l = Inr l1 \<Longrightarrow> container l1 = container l"
  by (auto simp add: render_def bind_def Let_def showEmptyMessage_def
        hideEmptyMessage_def split: if_splits sum.splits json.splits)

lemma rendered_deterministic:
  assumes "container l" "container l'" "items l' = items l"
    "toLocaleDateString p' = toLocaleDateString p"
  shows "rendered (render p' l') = rendered (render p l)"
  unfolding rendered_render [OF assms(1)] rendered_render [OF assms(2)] assms(3)
  using create_cards_descriptors [OF assms(4)]
  by (auto simp add: bind_def split: sum.splits json.splits)

text \<open>
  C2: the display descriptors shown by \<open>render()\<close> (title, formatted date, description,
  optional value and the id of the delete button, for every item in order) depend on the
  items only: two calls on states with the same items, with the container present and
  the same date formatting, show the same descriptors or throw the same error, whatever
  \<open>Math.random()\<close> returns; and a second call right after a first one shows what the
  first did.
\<close>

theorem render_descriptors_deterministic:
  assumes "container l" "container l'" "items l' = items l"
    "toLocaleDateString p' = toLocaleDateString p"
  shows "rendered (render p' l') = rendered (render p l) \<and>
         (\<forall>l1. render p l = Inr l1 \<longrightarrow> rendered (render p l1) = rendered (render p l))"
proof -
  have "rendered (render p l1) = rendered (render p l)" if "render p l = Inr l1" for l1
    using rendered_deterministic [of l l1 p p] render_items [OF that] render_container [OF that]
      assms(1) by simp
  then show ?thesis using rendered_deterministic [OF assms] by blast
qed

lemma cons_token_error: "cons_token t r = Inl e \<Longrightarrow> r = Inl e"
  by (cases r) (simp_all add: cons_token_def)

lemma tokenize_Cons_cases:
  "tokenize (c # cs) = Inl SyntaxError \<or>
   (\<exists>t. length t \<le> length cs \<and> tokenize (c # cs) = tokenize t) \<or>
   (\<exists>k t. length t \<le> length cs \<and> tokenize (c # cs) = cons_token k (tokenize t))"
proof -
  have r1: "\<exists>t. length t \<le> length cs \<and> tokenize cs = tokenize t" by blast
  have r2: "\<exists>k' t. length t \<le> length cs \<and> cons_token k (tokenize t') = cons_token k' (tokenize t)"
    if "length t' \<le> length cs" for k t'
    using that by blast
  have str: "\<exists>k' t. length t \<le> length cs \<and>
      (case string_chars cs of None \<Rightarrow> Inl SyntaxError
       | Some (s, rest) \<Rightarrow> cons_token (Scalar (JStr s)) (tokenize rest)) =
        cons_token k' (tokenize t)" if "string_chars cs \<noteq> None"
  proof -
    from that obtain s rest where sr: "string_chars cs = Some (s, rest)" by auto
    with string_chars_shorter [OF sr] show ?thesis by (auto intro!: r2)
  qed
  have num: "\<exists>k' t. length t \<le> length cs \<and>
      (case json_number (c # cs) of None \<Rightarrow> Inl SyntaxError
       | Some (n, rest) \<Rightarrow> cons_token (Scalar (JNum n)) (tokenize rest)) =
        cons_token k' (tokenize t)" if "json_number (c # cs) \<noteq> None"
  proof -
    from that obtain n rest where sr: "json_number (c # cs) = Some (n, rest)" by auto
    with json_number_shorter [OF sr] show ?thesis by (auto intro!: r2)
  qed
  show ?thesis
  proof (cases "string_chars cs = None")
    case sn: True
    show ?thesis
    proof (cases "json_number (c # cs) = None")
      case True
      show ?thesis
        by (subst (1 2 3) tokenize.simps) (use sn True r1 r2 in \<open>simp\<close>)
    next
      case False
      show ?thesis
        by (subst (1 2 3) tokenize.simps) (use sn num [OF False] r1 r2 in \<open>simp\<close>)
    qed
  next
    case sn: False
    show ?thesis
    proof (cases "json_number (c # cs) = None")
      case True
      show ?thesis
        by (subst (1 2 3) tokenize.simps) (use str [OF sn] True r1 r2 in \<open>simp\<close>)
    next
      case False
      show ?thesis
        by (subst (1 2 3) tokenize.simps) (use str [OF sn] num [OF False] r1 r2 in \<open>simp\<close>)
    qed
  qed
qed

lemma tokenize_error_aux: "length s \<le> n \<Longrightarrow> tokenize s \<noteq> Inl TypeError"
proof (induction n arbitrary: s)
  case 0
  then show ?case by simp
next
  case (Suc n)
  show ?case
  proof (cases s)
    case Nil
    then show ?thesis by simp
  next
    case (Cons c cs)
    then have len: "length cs \<le> n" using Suc.prems by simp
    from tokenize_Cons_cases [of c cs] show ?thesis
    proof (elim disjE exE conjE)
      assume "tokenize (c # cs) = Inl SyntaxError"
      then show ?thesis using Cons by simp
    next
      fix t assume "length t \<le> length cs" "tokenize (c # cs) = tokenize t"
      then show ?thesis using Cons Suc.IH [of t] len by simp
    next
      fix k t assume "length t \<le> length cs" "tokenize (c # cs) = cons_token k (tokenize t)"
      then show ?thesis using Cons Suc.IH [of t] len
        by (auto dest: cons_token_error)
    qed
  qed
qed

lemma tokenize_error: "tokenize s = Inl e \<Longrightarrow> e = SyntaxError"
  using tokenize_error_aux [of s "length s"] by (cases e) auto

lemma parse_tokens_error: "parse_tokens ex st ts = Inl e \<Longrightarrow> e = SyntaxError"
  by (induction ts arbitrary: ex st)
     (auto split: expect.splits if_splits option.splits prod.splits)

lemma JSON_parse_error: "JSON_parse s = Inl e \<Longrightarrow> e = SyntaxError"
  by (auto simp add: JSON_parse_def split: sum.splits dest: tokenize_error parse_tokens_error)

text \<open>
  C1, as amended: when the container exists and the stored text is a non-empty string
  that \<open>JSON.parse\<close> rejects, \<open>init\<close> throws the \<open>SyntaxError\<close> of \<open>JSON.parse\<close> to its
  caller. When nothing is stored, or the empty string, or the container is missing,
  \<open>init\<close> returns and the sequence is as before (empty at the start).
\<close>

theorem init_malformed_throws:
  "(hasElement p cid \<and> savedItems l = Some saved \<and> saved \<noteq> [] \<and> JSON_parse saved = Inl e \<longrightarrow>
      init p cid l = Inl e \<and> e = SyntaxError) \<and>
   (savedItems l = None \<or> savedItems l = Some [] \<or> \<not> hasElement p cid \<longrightarrow>
      result_items (init p cid l) = Inr (items l))"
  by (auto simp add: init_def Let_def result_items_def dest: JSON_parse_error)

lemma JSON_parse_open_brace: "JSON_parse (js ''{'') = Inl SyntaxError"
  by (simp add: JSON_parse_def js_def tokenize.simps(2) is_json_space_def cons_token_def
      parse_step_def start_value_def)

text \<open>
  C1, as stated, fails: with the text \<open>{\<close> stored, which is not JSON, \<open>init\<close> throws.
\<close>

theorem init_malformed_counterexample:
  "JSON_parse (js ''{'') = Inl SyntaxError \<and>
   init platform0 (js ''lista-dinamica'') (DynamicList\<lparr>savedItems := Some (js ''{'')\<rparr>) =
     Inl SyntaxError"
  by (simp add: JSON_parse_open_brace init_def platform0_def Let_def) (simp add: js_def)

theorem init_malformed_throws_witness:
  "hasElement platform0 (js ''lista-dinamica'') \<and>
   JSON_parse (js ''{'') = Inl SyntaxError \<and>
   init platform0 (js ''lista-dinamica'') (DynamicList\<lparr>savedItems := Some (js ''{'')\<rparr>) =
     Inl SyntaxError \<and>
   result_items (init platform0 (js ''lista-dinamica'') DynamicList) = Inr (JArr [])"
proof -
  let ?l = "DynamicList\<lparr>savedItems := Some (js ''{'')\<rparr>"
  have h: "hasElement platform0 (js ''lista-dinamica'') \<and> savedItems ?l = Some (js ''{'') \<and>
      js ''{'' \<noteq> [] \<and> JSON_parse (js ''{'') = Inl SyntaxError"
    by (simp add: platform0_def JSON_parse_open_brace) (simp add: js_def)
  have a: "init platform0 (js ''lista-dinamica'') ?l = Inl SyntaxError"
    using init_malformed_throws [of platform0 "js ''lista-dinamica''" ?l "js ''{''" SyntaxError,
        THEN conjunct1] h by blast
  have h2: "savedItems DynamicList = None" by (simp add: DynamicList_def)
  have b: "result_items (init platform0 (js ''lista-dinamica'') DynamicList) = Inr (JArr [])"
    using init_malformed_throws [of platform0 "js ''lista-dinamica''" DynamicList,
        THEN conjunct2] h2 by (simp add: DynamicList_def)
  from h a b show ?thesis by simp
qed

lemma ListItem_c: "ListItem item_c"
  by (simp add: ListItem_iff item_c_def time_value_def)

lemma not_has_id_7_a: "\<not> has_id (Fin 7) item_a"
  by (simp add: has_id_def item_a_def get_prop_def strict_equal_num_def is_zero_def js_def)

lemma not_has_id_7_b: "\<not> has_id (Fin 7) item_b"
  by (simp add: has_id_def item_b_def get_prop_def strict_equal_num_def is_zero_def js_def)

lemma has_id_7_c: "has_id (Fin 7) item_c"
  by (simp add: has_id_def item_c_def get_prop_def strict_equal_num_def js_def)

theorem removeItem_removes_all_matching_witness:
  "result_items (removeItem platform0 (Fin 7)
      (DynamicList\<lparr>items := JArr [item_a, item_c, item_b]\<rparr>)) = Inr (JArr [item_a, item_b]) \<and>
   result_items (removeItem platform0 (Fin 7)
      (DynamicList\<lparr>items := JArr [item_a, item_b]\<rparr>)) = Inr (JArr [item_a, item_b])"
proof -
  let ?l = "DynamicList\<lparr>items := JArr [item_a, item_c, item_b]\<rparr>"
  let ?m = "DynamicList\<lparr>items := JArr [item_a, item_b]\<rparr>"
  have il: "items ?l = JArr [item_a, item_c, item_b]" and im: "items ?m = JArr [item_a, item_b]"
    by simp_all
  have li: "\<forall>x\<in>set [item_a, item_c, item_b]. ListItem x"
    and mi: "\<forall>x\<in>set [item_a, item_b]. ListItem x"
    using ListItem_a ListItem_b ListItem_c by simp_all
  from removeItem_removes_all_matching [of ?l "[item_a, item_c, item_b]" platform0 "Fin 7",
      THEN conjunct2] il li
  obtain l' where l': "removeItem platform0 (Fin 7) ?l = Inr l'" by blast
  from removeItem_removes_all_matching [of ?l "[item_a, item_c, item_b]" platform0 "Fin 7" l',
      THEN conjunct1] il l'
  have "\<forall>as x bs. [item_a, item_c, item_b] = as @ x # bs \<and> has_id (Fin 7) x \<and>
      (\<forall>y\<in>set as \<union> set bs. \<not> has_id (Fin 7) y) \<longrightarrow> items l' = JArr (as @ bs)"
    by blast
  from this [rule_format, of "[item_a]" item_c "[item_b]"]
  have a: "items l' = JArr [item_a, item_b]"
    by (simp add: has_id_7_c not_has_id_7_a not_has_id_7_b)
  from removeItem_removes_all_matching [of ?m "[item_a, item_b]" platform0 "Fin 7",
      THEN conjunct2] im mi
  obtain m' where m': "removeItem platform0 (Fin 7) ?m = Inr m'" by blast
  from removeItem_removes_all_matching [of ?m "[item_a, item_b]" platform0 "Fin 7" m',
      THEN conjunct1] im m'
  have "(\<forall>y\<in>set [item_a, item_b]. \<not> has_id (Fin 7) y) \<longrightarrow> items m' = JArr [item_a, item_b]"
    by blast
  then have b: "items m' = JArr [item_a, item_b]"
    by (simp add: not_has_id_7_a not_has_id_7_b)
  show ?thesis unfolding l' m' using a b by (simp add: result_items_def)
qed

lemma Number_toString_5: "Number_toString (Fin 5) = js ''5''"
  by (simp add: Number_toString_numeral digit_simps js_def)

theorem render_descriptors_deterministic_witness:
  "container (DynamicList\<lparr>items := JArr [item_a], container := True\<rparr>) \<and>
   rendered (render (platform0\<lparr>random := (\<lambda>_. Fin 1)\<rparr>)
      (DynamicList\<lparr>items := JArr [item_a], container := True, randomCalls := 3\<rparr>)) =
     rendered (render platform0 (DynamicList\<lparr>items := JArr [item_a], container := True\<rparr>)) \<and>
   rendered (render platform0 (DynamicList\<lparr>items := JArr [item_a], container := True\<rparr>)) =
     Inr [(js ''a'', js ''1/1/2025'', js ''Sin descripci'' @ [0xF3] @ js ''n'', None, js ''5'')]"
proof -
  let ?l = "DynamicList\<lparr>items := JArr [item_a], container := True\<rparr>"
  let ?l' = "DynamicList\<lparr>items := JArr [item_a], container := True, randomCalls := 3\<rparr>"
  let ?p' = "platform0\<lparr>random := (\<lambda>_. Fin 1)\<rparr>"
  have h: "container ?l" "container ?l'" "items ?l' = items ?l"
    "toLocaleDateString ?p' = toLocaleDateString platform0"
    by simp_all
  have a: "rendered (render ?p' ?l') = rendered (render platform0 ?l)"
    using render_descriptors_deterministic [OF h] by blast
  have b: "rendered (render platform0 ?l) =
     Inr [(js ''a'', js ''1/1/2025'', js ''Sin descripci'' @ [0xF3] @ js ''n'', None, js ''5'')]"
    by (simp add: render_def rendered_def length_is_zero_def hideEmptyMessage_def Let_def
        item_a_def createItemElement_ListItem descriptor_def Number_toString_5 platform0_def)
       (simp add: js_def)
  from h(1) a b show ?thesis by simp
qed

lemma palette_color_0: "palette_color (Fin 0) = Some (js ''#2D00F7'')"
  by (simp add: palette_color_def num_mul_def is_zero_def is_inf_def is_neg_def signed_zero_def
      index_def COLOR_PALETTE_primary_def)

lemma palette_color_half: "palette_color (Fin (1 / 2)) = Some (js ''#8900F2'')"
  by (simp add: palette_color_def num_mul_def is_zero_def is_inf_def num_val_def round64_5_2
      index_def COLOR_PALETTE_primary_def)

text \<open>
  The whole card is not a function of the item: the colour of its border follows the
  number drawn from \<open>Math.random()\<close>.
\<close>

lemma card_border_follows_random:
  "map_sum id borderColor (createItemElement platform0 (Fin 0) item_a) = Inr (js ''#2D00F7'') \<and>
   map_sum id borderColor (createItemElement platform0 (Fin (1 / 2)) item_a) = Inr (js ''#8900F2'')"
  by (simp add: item_a_def createItemElement_ListItem palette_color_0 palette_color_half)

section \<open>The round trip of the serialization\<close>

subsection \<open>Strings\<close>

lemma unat_of_nat_16: "m < 65536 \<Longrightarrow> unat (of_nat m :: 16 word) = m"
  by (simp add: unat_of_nat)

lemma unat_hex_digit:
  "n < 16 \<Longrightarrow> unat (hex_digit n) = (if n < 10 then 48 + n else 87 + n)"
  unfolding hex_digit_def by (simp only: unat_of_nat_16 if_distrib [of unat] cong: if_cong)

lemma hex_val_hex_digit: "n < 16 \<Longrightarrow> hex_val (hex_digit n) = Some n"
  unfolding hex_val_def word_le_nat_alt by (simp add: unat_hex_digit)

lemma hex_digit_not_special:
  "n < 16 \<Longrightarrow> hex_digit n \<noteq> 0x22 \<and> hex_digit n \<noteq> 0x5C"
  using hex_val_hex_digit [of n] by (auto simp add: hex_val_def split: if_splits)

lemma unicode_unit_escape:
  "unicode_unit (hex_digit (unat c div 4096)) (hex_digit (unat c div 256 mod 16))
     (hex_digit (unat c div 16 mod 16)) (hex_digit (unat c mod 16)) = Some c"
proof -
  have lt: "unat c < 65536" using unsigned_less [of c] by simp
  then have d1: "unat c div 4096 < 16" by simp
  have s: "m div 4096 * 4096 + m div 256 mod 16 * 256 + m div 16 mod 16 * 16 + m mod 16 = m"
    for m :: nat
  proof -
    have a: "m div 16 * 16 + m mod 16 = m" by simp
    have "m div 16 div 16 = m div 256" "m div 256 div 16 = m div 4096"
      by (simp_all add: div_mult2_eq [symmetric])
    then have b: "m div 256 * 16 + m div 16 mod 16 = m div 16"
      and c: "m div 4096 * 16 + m div 256 mod 16 = m div 256"
      using div_mult_mod_eq [of "m div 16" 16] div_mult_mod_eq [of "m div 256" 16]
      by (simp_all only:)
    show ?thesis using a b c by linarith
  qed
  show ?thesis
    by (simp add: unicode_unit_def hex_val_hex_digit d1 s)
qed

lemma string_chars_unicode_escape:
  "string_chars (unicode_escape c @ t) = cons_unit c (string_chars t)"
  by (simp add: unicode_escape_def unicode_unit_escape)

lemma string_chars_plain:
  "c \<noteq> 0x22 \<Longrightarrow> c \<noteq> 0x5C \<Longrightarrow> \<not> c < 0x20 \<Longrightarrow>
   string_chars (c # t) = cons_unit c (string_chars t)"
  by simp

lemma string_chars_quote_unit:
  "string_chars (quote_unit c @ t) = cons_unit c (string_chars t)"
proof -
  consider "c = 0x08" | "c = 0x09" | "c = 0x0A" | "c = 0x0C" | "c = 0x0D" | "c = 0x22" | "c = 0x5C"
    | "c \<notin> {0x08, 0x09, 0x0A, 0x0C, 0x0D, 0x22, 0x5C}"
      "c < 0x20 \<or> is_high_surrogate c \<or> is_low_surrogate c"
    | "c \<notin> {0x08, 0x09, 0x0A, 0x0C, 0x0D, 0x22, 0x5C}"
      "\<not> (c < 0x20 \<or> is_high_surrogate c \<or> is_low_surrogate c)"
    by blast
  then show ?thesis
  proof cases
    case 8
    then have "quote_unit c = unicode_escape c" by (simp add: quote_unit_def)
    then show ?thesis by (simp only: string_chars_unicode_escape)
  next
    case 9
    then have "quote_unit c = [c]" by (simp add: quote_unit_def)
    then show ?thesis using 9 by simp
  qed (simp_all add: quote_unit_def simple_escape_def)
qed

lemma surrogate_plain:
  "is_high_surrogate c \<or> is_low_surrogate c \<Longrightarrow> c \<noteq> 0x22 \<and> c \<noteq> 0x5C \<and> \<not> c < 0x20"
  by (auto simp add: is_high_surrogate_def is_low_surrogate_def word_le_nat_alt word_less_nat_alt)

lemma cons_unit_cons_unit:
  "cons_unit c (cons_unit d (Some (s, rest))) = Some (c # d # s, rest)"
  by (simp add: cons_unit_def)

lemma string_chars_quote_units:
  "string_chars (quote_units s @ 0x22 # rest) = Some (s, rest)"
proof (induction s rule: quote_units.induct)
  case 1
  then show ?case by simp
next
  case (2 c)
  show ?case using string_chars_quote_unit [of c "0x22 # rest"]
    by (simp add: cons_unit_def)
next
  case (3 c d cs)
  show ?case
  proof (cases "is_high_surrogate c \<and> is_low_surrogate d")
    case True
    then have c: "c \<noteq> 0x22 \<and> c \<noteq> 0x5C \<and> \<not> c < 0x20" and d: "d \<noteq> 0x22 \<and> d \<noteq> 0x5C \<and> \<not> d < 0x20"
      using surrogate_plain by blast+
    have "string_chars (c # d # quote_units cs @ 0x22 # rest) =
        cons_unit c (cons_unit d (string_chars (quote_units cs @ 0x22 # rest)))"
      using c d by simp
    then show ?thesis using True "3.IH"(1) by (simp add: cons_unit_def)
  next
    case False
    then have "quote_units (c # d # cs) = quote_unit c @ quote_units (d # cs)" by auto
    then show ?thesis using "3.IH"(2) [OF False] string_chars_quote_unit [of c]
      by (simp add: cons_unit_def)
  qed
qed

subsection \<open>Numbers\<close>


lemma unat_digit_char: "n < 10 \<Longrightarrow> unat (digit_char n) = 48 + n"
  using unat_of_nat_16 [of "48 + n"] unfolding digit_char_def by simp

lemma is_digit_digit_char: "n < 10 \<Longrightarrow> is_digit (digit_char n)"
  unfolding is_digit_def word_le_nat_alt by (simp add: unat_digit_char)

lemma digit_val_digit_char: "n < 10 \<Longrightarrow> digit_val (digit_char n) = n"
  unfolding digit_val_def by (simp add: unat_digit_char)

lemma digits_of_all_digits: "\<forall>c\<in>set (digits_of n). is_digit c"
proof (induction n rule: digits_of.induct)
  case (1 n)
  show ?case
  proof (cases "n < 10")
    case True
    then show ?thesis by (simp add: digits_of_lt10 is_digit_digit_char)
  next
    case False
    then show ?thesis using "1.IH" by (simp add: digits_of_ge10 is_digit_digit_char)
  qed
qed

lemma digits_val_Nil: "digits_val [] = 0"
  by (simp add: digits_val_def)

lemma digits_val_snoc: "digits_val (ds @ [c]) = 10 * digits_val ds + digit_val c"
  by (simp add: digits_val_def)

lemma digits_val_digits_of: "digits_val (digits_of n) = n"
proof (induction n rule: digits_of.induct)
  case (1 n)
  show ?case
  proof (cases "n < 10")
    case True
    then show ?thesis by (simp add: digits_of_lt10 digits_val_def digit_val_digit_char)
  next
    case False
    then show ?thesis using "1.IH"
      by (simp add: digits_of_ge10 digits_val_snoc digit_val_digit_char)
  qed
qed

lemma hd_digits_of: "0 < n \<Longrightarrow> hd (digits_of n) \<noteq> 0x30"
proof (induction n rule: digits_of.induct)
  case (1 n)
  show ?case
  proof (cases "n < 10")
    case True
    have "unat (digit_char n) = 48 + n" using True by (rule unat_digit_char)
    then have "digit_char n \<noteq> 0x30" using "1.prems" by auto
    then show ?thesis using True by (simp add: digits_of_lt10)
  next
    case False
    then have "0 < n div 10" by simp
    from "1.IH" [OF False this] show ?thesis using False by (simp add: digits_of_ge10)
  qed
qed

lemma hd_digits_of_digit: "is_digit (hd (digits_of n))"
  using digits_of_all_digits [of n] digits_of_nonempty [of n]
  by (cases "digits_of n") auto

lemma value_end_not_digit: "value_end rest \<Longrightarrow> rest = [] \<or> \<not> is_digit (hd rest)"
  by (auto simp add: value_end_def is_digit_def)

lemma takeWhile_digits:
  "value_end rest \<Longrightarrow> takeWhile is_digit (digits_of n @ rest) = digits_of n"
  using digits_of_all_digits [of n] value_end_not_digit [of rest]
  by (cases rest) (auto simp add: takeWhile_append2 takeWhile_eq_all_conv)

lemma exponent_part_value_end: "value_end rest \<Longrightarrow> exponent_part rest = (0, rest)"
  by (cases rest) (auto simp add: exponent_part_def value_end_def)

lemma json_number_digits:
  assumes "value_end rest" "n < 2 ^ 53"
  shows "json_number (digits_of n @ rest) = Some (Fin (of_nat n), rest)"
proof -
  obtain d ds where dd: "digits_of n = d # ds" using digits_of_nonempty [of n] by (cases "digits_of n") auto
  have dig: "is_digit d" using hd_digits_of_digit [of n] dd by simp
  then have nm: "d \<noteq> 0x2D" by (auto simp add: is_digit_def)
  have tw: "takeWhile is_digit (digits_of n @ rest) = digits_of n"
    by (rule takeWhile_digits [OF assms(1)])
  have ip: "(if hd (digits_of n) = 0x30 then [0x30] else digits_of n) = digits_of n"
  proof (cases "n = 0")
    case True
    then show ?thesis by (simp add: digits_of_lt10 digit_char_def)
  next
    case False
    then show ?thesis using hd_digits_of [of n] by simp
  qed
  have fp: "(case rest of [] \<Rightarrow> [] | c # t \<Rightarrow> if c = 0x2E then takeWhile is_digit t else []) = []"
    using assms(1) by (cases rest) (auto simp add: value_end_def)
  have r: "round64 (of_nat n) = Fin (of_nat n)"
  proof (cases "n = 0")
    case True
    then show ?thesis by (simp add: round64_def)
  next
    case False
    then show ?thesis using round64_pos_exact [of "int n"] assms(2) by simp
  qed
  have neg: "(case digits_of n @ rest of [] \<Rightarrow> False | c # _ \<Rightarrow> c = 0x2D) = False"
    using nm by (simp add: dd)
  show ?thesis
    unfolding json_number_def Let_def neg if_False tw ip
    by (simp add: fp exponent_part_value_end [OF assms(1)] digits_val_digits_of r digits_val_Nil)
qed

lemma json_number_minus_digits:
  assumes "value_end rest" "n < 2 ^ 53" "0 < n"
  shows "json_number (0x2D # digits_of n @ rest) = Some (Fin (- of_nat n), rest)"
proof -
  have tw: "takeWhile is_digit (digits_of n @ rest) = digits_of n"
    by (rule takeWhile_digits [OF assms(1)])
  have ip: "(if hd (digits_of n) = 0x30 then [0x30] else digits_of n) = digits_of n"
    using hd_digits_of [OF assms(3)] by simp
  have fp: "(case rest of [] \<Rightarrow> [] | c # t \<Rightarrow> if c = 0x2E then takeWhile is_digit t else []) = []"
    using assms(1) by (cases rest) (auto simp add: value_end_def)
  have r: "round64 (of_nat n) = Fin (of_nat n)"
    using round64_pos_exact [of "int n"] assms(2,3) by simp
  have neg: "(case 0x2D # digits_of n @ rest of [] \<Rightarrow> False | c # _ \<Rightarrow> c = 0x2D) = True"
    by simp
  have tl: "tl (0x2D # digits_of n @ rest) = digits_of n @ rest" by simp
  show ?thesis
    unfolding json_number_def Let_def neg if_True tl tw ip
    using assms(3)
    by (simp add: fp exponent_part_value_end [OF assms(1)] digits_val_digits_of r
        digits_val_Nil num_neg_def)
qed

lemma safe_integer_iff:
  "safe_integer n \<longleftrightarrow> (\<exists>i. n = Fin (of_int i) \<and> \<bar>i\<bar> < 2 ^ 53)"
proof
  assume "safe_integer n"
  then obtain x where x: "n = Fin x" "x = of_int \<lfloor>x\<rfloor>" "\<bar>x\<bar> < 2 ^ 53"
    by (auto simp add: safe_integer_def split: num.splits)
  then have "\<bar>of_int \<lfloor>x\<rfloor> :: rat\<bar> < of_int (2 ^ 53)" by simp
  then have "\<bar>\<lfloor>x\<rfloor>\<bar> < 2 ^ 53" by (simp only: of_int_abs [symmetric] of_int_less_iff)
  with x show "\<exists>i. n = Fin (of_int i) \<and> \<bar>i\<bar> < 2 ^ 53" by metis
next
  assume "\<exists>i. n = Fin (of_int i) \<and> \<bar>i\<bar> < 2 ^ 53"
  then obtain i where i: "n = Fin (of_int i)" "\<bar>i\<bar> < 2 ^ 53" by blast
  then have "\<bar>of_int i :: rat\<bar> < of_int (2 ^ 53)" by (simp only: of_int_abs [symmetric] of_int_less_iff)
  then show "safe_integer n" using i by (simp add: safe_integer_def)
qed

text \<open>A safe integer is written as its decimal digits and read back.\<close>

lemma tokenize_number:
  assumes "safe_integer n" "value_end rest"
  shows "tokenize (Number_toString n @ rest) = cons_token (Scalar (JNum n)) (tokenize rest)"
proof -
  from assms(1) obtain i where i: "n = Fin (of_int i)" "\<bar>i\<bar> < 2 ^ 53"
    by (auto simp add: safe_integer_iff)
  show ?thesis
  proof (cases "i < 0")
    case False
    define m where "m = nat i"
    have m: "m < 2 ^ 53" "of_int i = (of_nat m :: rat)" using False i(2) by (auto simp add: m_def nat_less_iff)
    have ts: "Number_toString n = digits_of m"
      using Number_toString_int [OF i(2)] False by (simp add: i(1) m_def)
    obtain d ds where dd: "digits_of m = d # ds"
      using digits_of_nonempty [of m] by (cases "digits_of m") auto
    have dig: "is_digit d" using hd_digits_of_digit [of m] dd by simp
    then have cls: "\<not> is_json_space d" "d \<noteq> 0x7B" "d \<noteq> 0x7D" "d \<noteq> 0x5B" "d \<noteq> 0x5D" "d \<noteq> 0x3A"
      "d \<noteq> 0x2C" "d \<noteq> 0x22"
      by (auto simp add: is_digit_def is_json_space_def)
    have "tokenize (d # ds @ rest) =
        (case json_number (d # ds @ rest) of None \<Rightarrow> Inl SyntaxError
         | Some (n, rest) \<Rightarrow> cons_token (Scalar (JNum n)) (tokenize rest))"
      using cls dig by (simp add: tokenize.simps(2))
    then show ?thesis
      unfolding ts dd using json_number_digits [OF assms(2) m(1)] by (simp add: dd i(1) m(2))
  next
    case True
    define m where "m = nat (- i)"
    have m: "m < 2 ^ 53" "0 < m" "of_int i = (- of_nat m :: rat)"
      using True i(2) by (auto simp add: m_def nat_less_iff)
    have ts: "Number_toString n = 0x2D # digits_of m"
      using Number_toString_int [OF i(2)] True by (simp add: i(1) m_def js_def)
    have "tokenize (0x2D # digits_of m @ rest) =
        (case json_number (0x2D # digits_of m @ rest) of None \<Rightarrow> Inl SyntaxError
         | Some (n, rest) \<Rightarrow> cons_token (Scalar (JNum n)) (tokenize rest))"
      by (simp add: tokenize.simps(2) is_json_space_def)
    then show ?thesis
      unfolding ts using json_number_minus_digits [OF assms(2) m(1,2)] by (simp add: i(1) m(3))
  qed
qed

subsection \<open>Tokens\<close>

lemma foldr_cons_token_Inr: "foldr cons_token ts (Inr us) = Inr (ts @ us)"
  by (induction ts) (simp_all add: cons_token_def)

lemma tokenize_punct:
  "tokenize (0x2C # r) = cons_token Comma (tokenize r)"
  "tokenize (0x5D # r) = cons_token RBracket (tokenize r)"
  "tokenize (0x7D # r) = cons_token RBrace (tokenize r)"
  "tokenize (0x5B # r) = cons_token LBracket (tokenize r)"
  "tokenize (0x7B # r) = cons_token LBrace (tokenize r)"
  "tokenize (0x3A # r) = cons_token Colon (tokenize r)"
  by (simp_all add: tokenize.simps(2) is_json_space_def)

lemma value_end_punct [simp]:
  "value_end (0x2C # r)" "value_end (0x5D # r)" "value_end (0x7D # r)"
  by (simp_all add: value_end_def)

lemma tokenize_null: "tokenize (js ''null'' @ r) = cons_token (Scalar JNull) (tokenize r)"
  by (simp add: js_def tokenize.simps(2) is_json_space_def is_digit_def)

lemma tokenize_true: "tokenize (js ''true'' @ r) = cons_token (Scalar (JBool True)) (tokenize r)"
  by (simp add: js_def tokenize.simps(2) is_json_space_def is_digit_def)

lemma tokenize_false: "tokenize (js ''false'' @ r) = cons_token (Scalar (JBool False)) (tokenize r)"
  by (simp add: js_def tokenize.simps(2) is_json_space_def is_digit_def)

lemma tokenize_quote:
  "tokenize (JSON_quote s @ r) = cons_token (Scalar (JStr s)) (tokenize r)"
  by (simp add: JSON_quote_def tokenize.simps(2) is_json_space_def string_chars_quote_units)

lemma tokenize_joined:
  assumes each: "\<And>x r. x \<in> set xs \<Longrightarrow> value_end r \<Longrightarrow>
      tokenize (S x @ r) = foldr cons_token (T x) (tokenize r)"
    and close: "tokenize (c # rest) = cons_token C (tokenize rest)" "value_end (c # rest)"
  shows "tokenize (join_comma (map S xs) @ c # rest) =
         foldr cons_token (separated (map T xs) @ [C]) (tokenize rest)"
  using each
proof (induction xs rule: induct_list012)
  case 1
  then show ?case by (simp add: close)
next
  case (2 x)
  then show ?case by (simp add: close)
next
  case (3 x y zs)
  have "tokenize (S x @ 0x2C # join_comma (map S (y # zs)) @ c # rest) =
      foldr cons_token (T x) (tokenize (0x2C # join_comma (map S (y # zs)) @ c # rest))"
    by (rule "3.prems") simp_all
  moreover have "tokenize (join_comma (map S (y # zs)) @ c # rest) =
      foldr cons_token (separated (map T (y # zs)) @ [C]) (tokenize rest)"
    by (rule "3.IH"(2)) (simp add: "3.prems")
  ultimately show ?case by (simp add: tokenize_punct)
qed

lemma tokenize_stringify:
  "plain v \<Longrightarrow> value_end rest \<Longrightarrow>
   tokenize (JSON_stringify v @ rest) = foldr cons_token (tokens_of v) (tokenize rest)"
proof (induction v arbitrary: rest)
  case JNull
  then show ?case by (simp add: tokenize_null)
next
  case (JBool b)
  then show ?case by (simp add: tokenize_true tokenize_false)
next
  case (JNum n)
  then have s: "safe_integer n" by simp
  then have "n \<noteq> NaN" "\<not> is_inf n" by (auto simp add: safe_integer_def is_inf_def)
  then show ?case using tokenize_number [OF s JNum.prems(2)] by simp
next
  case (JStr s)
  then show ?case by (simp add: tokenize_quote)
next
  case (JArr xs)
  have "tokenize (join_comma (map JSON_stringify xs) @ 0x5D # rest) =
      foldr cons_token (separated (map tokens_of xs) @ [RBracket]) (tokenize rest)"
  proof (rule tokenize_joined)
    fix x r assume "x \<in> set xs" "value_end r"
    then show "tokenize (JSON_stringify x @ r) = foldr cons_token (tokens_of x) (tokenize r)"
      using JArr.IH JArr.prems(1) by simp
  qed (simp_all add: tokenize_punct)
  then show ?case by (simp add: tokenize_punct)
next
  case (JObj ps)
  let ?S = "\<lambda>p. JSON_quote (fst p) @ 0x3A # JSON_stringify (snd p)"
  let ?T = "\<lambda>p. Scalar (JStr (fst p)) # Colon # tokens_of (snd p)"
  have "tokenize (join_comma (map ?S ps) @ 0x7D # rest) =
      foldr cons_token (separated (map ?T ps) @ [RBrace]) (tokenize rest)"
  proof (rule tokenize_joined)
    fix p r assume p: "p \<in> set ps" "value_end r"
    then have "plain (snd p)" using JObj.prems(1) by simp
    moreover have "snd p \<in> Basic_BNFs.snds p" by (cases p) simp
    ultimately have "tokenize (JSON_stringify (snd p) @ r) =
        foldr cons_token (tokens_of (snd p)) (tokenize r)"
      using JObj.IH p by blast
    then show "tokenize (?S p @ r) = foldr cons_token (?T p) (tokenize r)"
      by (simp add: tokenize_quote tokenize_punct)
  qed (simp_all add: tokenize_punct)
  then show ?case by (simp add: tokenize_punct)
qed

subsection \<open>Values\<close>

lemma separated_Cons:
  "separated (x # xs) = x @ concat (map (\<lambda>y. Comma # y) xs)"
  by (induction xs arbitrary: x rule: induct_list012) simp_all

lemma parse_tokens_step:
  "parse_step e st t = Some (e', st') \<Longrightarrow> parse_tokens e st (t # ts) = parse_tokens e' st' ts"
  by simp

lemma step_scalar:
  "e = Value \<or> e = ValueOrClose \<Longrightarrow> parse_step e st (Scalar v) = Some (After v, st)"
  by (auto simp add: parse_step_def start_value_def)

lemma step_open_array:
  "e = Value \<or> e = ValueOrClose \<Longrightarrow>
   parse_step e st LBracket = Some (ValueOrClose, InArray [] # st)"
  by (auto simp add: parse_step_def start_value_def)

lemma step_open_object:
  "e = Value \<or> e = ValueOrClose \<Longrightarrow> parse_step e st LBrace = Some (KeyOrClose, st)"
  by (auto simp add: parse_step_def start_value_def)

lemma array_rest:
  assumes "\<And>y st ts. y \<in> set ys \<Longrightarrow>
      parse_tokens Value st (tokens_of y @ ts) = parse_tokens (After y) st ts"
  shows "parse_tokens (After x) (InArray acc # st)
           (concat (map (\<lambda>y. Comma # tokens_of y) ys) @ RBracket # ts) =
         parse_tokens (After (JArr (acc @ x # ys))) st ts"
  using assms
proof (induction ys arbitrary: acc x)
  case Nil
  then show ?case by (simp add: parse_step_def)
next
  case (Cons y ys)
  have "parse_tokens (After x) (InArray acc # st)
      (Comma # tokens_of y @ concat (map (\<lambda>y. Comma # tokens_of y) ys) @ RBracket # ts) =
      parse_tokens Value (InArray (acc @ [x]) # st)
        (tokens_of y @ concat (map (\<lambda>y. Comma # tokens_of y) ys) @ RBracket # ts)"
    by (simp add: parse_step_def)
  also have "\<dots> = parse_tokens (After y) (InArray (acc @ [x]) # st)
        (concat (map (\<lambda>y. Comma # tokens_of y) ys) @ RBracket # ts)"
    by (rule Cons.prems) simp
  also have "\<dots> = parse_tokens (After (JArr ((acc @ [x]) @ y # ys))) st ts"
    by (rule Cons.IH) (simp add: Cons.prems)
  finally show ?case by simp
qed

lemma object_rest:
  assumes "\<And>p st ts. p \<in> set ps \<Longrightarrow>
      parse_tokens Value st (tokens_of (snd p) @ ts) = parse_tokens (After (snd p)) st ts"
    and "distinct (map fst (acc @ (k, v) # ps))"
    and "\<forall>p\<in>set ((k, v) # ps). array_index (fst p) = None"
  shows "parse_tokens (After v) (InObject acc k # st)
           (concat (map (\<lambda>p. Comma # Scalar (JStr (fst p)) # Colon # tokens_of (snd p)) ps) @
            RBrace # ts) =
         parse_tokens (After (JObj (acc @ (k, v) # ps))) st ts"
  using assms
proof (induction ps arbitrary: acc k v)
  case Nil
  then have "set_prop acc k v = acc @ [(k, v)]" by (intro set_prop_new) auto
  then show ?case by (simp add: parse_step_def)
next
  case (Cons p ps)
  obtain k' v' where p: "p = (k', v')" by (cases p)
  let ?rest = "concat (map (\<lambda>p. Comma # Scalar (JStr (fst p)) # Colon # tokens_of (snd p)) ps) @
      RBrace # ts"
  have sp: "set_prop acc k v = acc @ [(k, v)]" using Cons.prems(2,3) by (intro set_prop_new) auto
  have "parse_tokens (After v) (InObject acc k # st)
      (Comma # Scalar (JStr k') # Colon # tokens_of v' @ ?rest) =
      parse_tokens Value (InObject (acc @ [(k, v)]) k' # st) (tokens_of v' @ ?rest)"
    by (simp add: parse_step_def sp key_token_def)
  also have "\<dots> = parse_tokens (After v') (InObject (acc @ [(k, v)]) k' # st) ?rest"
    using Cons.prems(1) [of p] by (simp add: p)
  also have "\<dots> = parse_tokens (After (JObj ((acc @ [(k, v)]) @ (k', v') # ps))) st ts"
  proof (rule Cons.IH)
    show "distinct (map fst ((acc @ [(k, v)]) @ (k', v') # ps))" using Cons.prems(2) by (simp add: p)
    show "\<forall>p\<in>set ((k', v') # ps). array_index (fst p) = None" using Cons.prems(3) by (simp add: p)
  qed (simp add: Cons.prems(1))
  finally show ?case by (simp add: p)
qed

lemma parse_tokens_value:
  "plain v \<Longrightarrow> e = Value \<or> e = ValueOrClose \<Longrightarrow>
   parse_tokens e st (tokens_of v @ ts) = parse_tokens (After v) st ts"
proof (induction v arbitrary: e st ts)
  case (JArr xs)
  have step: "parse_tokens e st (tokens_of (JArr xs) @ ts) =
      parse_tokens ValueOrClose (InArray [] # st) (separated (map tokens_of xs) @ RBracket # ts)"
    using step_open_array [OF JArr.prems(2)] by simp
  show ?case
  proof (cases xs)
    case Nil
    then show ?thesis unfolding step by (simp add: parse_step_def)
  next
    case (Cons x ys)
    have ih: "parse_tokens e' st' (tokens_of y @ ts') = parse_tokens (After y) st' ts'"
      if "y \<in> set xs" "e' = Value \<or> e' = ValueOrClose" for y e' st' ts'
      using JArr.IH [OF that(1)] JArr.prems(1) that by simp
    have "parse_tokens ValueOrClose (InArray [] # st)
        (separated (map tokens_of xs) @ RBracket # ts) =
        parse_tokens (After x) (InArray [] # st)
          (concat (map (\<lambda>y. Comma # tokens_of y) ys) @ RBracket # ts)"
      using ih [of x ValueOrClose] by (simp add: Cons separated_Cons comp_def)
    also have "\<dots> = parse_tokens (After (JArr ([] @ x # ys))) st ts"
      by (rule array_rest) (simp add: ih Cons)
    finally show ?thesis unfolding step by (simp add: Cons)
  qed
next
  case (JObj ps)
  have step: "parse_tokens e st (tokens_of (JObj ps) @ ts) =
      parse_tokens KeyOrClose st
        (separated (map (\<lambda>p. Scalar (JStr (fst p)) # Colon # tokens_of (snd p)) ps) @ RBrace # ts)"
    using step_open_object [OF JObj.prems(2)] by simp
  show ?case
  proof (cases ps)
    case Nil
    then show ?thesis unfolding step by (simp add: parse_step_def)
  next
    case (Cons p qs)
    obtain k v where p: "p = (k, v)" by (cases p)
    have ih: "parse_tokens Value st' (tokens_of (snd q) @ ts') = parse_tokens (After (snd q)) st' ts'"
      if "q \<in> set ps" for q st' ts'
    proof -
      have "snd q \<in> Basic_BNFs.snds q" by (cases q) simp
      moreover have "plain (snd q)" using JObj.prems(1) that by simp
      ultimately show ?thesis using JObj.IH [OF that] by blast
    qed
    let ?rest = "concat (map (\<lambda>p. Comma # Scalar (JStr (fst p)) # Colon # tokens_of (snd p)) qs) @
      RBrace # ts"
    have "parse_tokens KeyOrClose st
        (separated (map (\<lambda>p. Scalar (JStr (fst p)) # Colon # tokens_of (snd p)) ps) @ RBrace # ts) =
        parse_tokens Value (InObject [] k # st) (tokens_of v @ ?rest)"
      by (simp add: Cons p separated_Cons comp_def parse_step_def key_token_def)
    also have "\<dots> = parse_tokens (After v) (InObject [] k # st) ?rest"
      using ih [of p] by (simp add: Cons p)
    also have "\<dots> = parse_tokens (After (JObj ([] @ (k, v) # qs))) st ts"
    proof (rule object_rest)
      show "distinct (map fst ([] @ (k, v) # qs))" using JObj.prems(1) by (simp add: Cons p)
      show "\<forall>p\<in>set ((k, v) # qs). array_index (fst p) = None"
        using JObj.prems(1) by (simp add: Cons p)
    qed (simp add: ih Cons)
    finally show ?thesis unfolding step by (simp add: Cons p)
  qed
qed (auto simp add: step_scalar)

text \<open>Every plain value is read back from its text.\<close>

lemma JSON_round_trip:
  "plain v \<Longrightarrow> JSON_parse (JSON_stringify v) = Inr v"
proof -
  assume p: "plain v"
  have "tokenize (JSON_stringify v @ []) = foldr cons_token (tokens_of v) (tokenize [])"
    by (rule tokenize_stringify [OF p]) (simp add: value_end_def)
  then have "tokenize (JSON_stringify v) = Inr (tokens_of v)"
    by (simp add: foldr_cons_token_Inr)
  moreover have "parse_tokens Value [] (tokens_of v @ []) = parse_tokens (After v) [] []"
    by (rule parse_tokens_value [OF p]) simp
  ultimately show ?thesis by (simp add: JSON_parse_def)
qed

subsection \<open>Sequences of items\<close>

lemma time_value_safe: "time_value n \<Longrightarrow> safe_integer n"
  by (auto simp add: time_value_def safe_integer_def split: num.splits)

lemma ListItem_plain: "ListItem x \<Longrightarrow> plain x"
proof -
  assume "ListItem x"
  then obtain n t d v c where x: "x = JObj [(js ''id'', JNum n), (js ''title'', JStr t),
      (js ''description'', JStr d), (js ''value'', JStr v), (js ''createdAt'', JStr c)]"
    and n: "time_value n"
    by (auto simp add: ListItem_iff)
  have "distinct (map fst [(js ''id'', JNum n), (js ''title'', JStr t),
      (js ''description'', JStr d), (js ''value'', JStr v), (js ''createdAt'', JStr c)])"
    by (simp add: js_def)
  then show ?thesis
    using time_value_safe [OF n]
    by (simp add: x ai_id ai_title ai_description ai_value ai_createdAt)
qed

lemma JSON_stringify_array_not_empty: "JSON_stringify (JArr xs) \<noteq> []"
  by simp

text \<open>
  C7: the round trip of the serialization. For every sequence of \<open>ListItem\<close> records,
  \<open>JSON.parse\<close> of the text that \<open>JSON.stringify\<close> writes for the sequence returns the
  sequence: the same records in the same order, each with the same id, title,
  description, value and \<open>createdAt\<close>. So after \<open>saveToLocalStorage\<close> has stored the text,
  an \<open>init\<close> on a page with the container loads the same sequence.
\<close>

theorem serialization_round_trip:
  assumes "\<forall>x\<in>set xs. ListItem x"
  shows "JSON_parse (JSON_stringify (JArr xs)) = Inr (JArr xs) \<and>
         (items l = JArr xs \<and> hasElement p cid \<longrightarrow>
            savedItems (saveToLocalStorage l) = Some (JSON_stringify (JArr xs)) \<and>
            result_items (init p cid (saveToLocalStorage l)) = Inr (JArr xs))"
proof -
  have pl: "plain (JArr xs)" using assms ListItem_plain by simp
  have rt: "JSON_parse (JSON_stringify (JArr xs)) = Inr (JArr xs)"
    by (rule JSON_round_trip [OF pl])
  have "savedItems (saveToLocalStorage l) = Some (JSON_stringify (JArr xs)) \<and>
      result_items (init p cid (saveToLocalStorage l)) = Inr (JArr xs)"
    if h: "items l = JArr xs" "hasElement p cid"
  proof -
    let ?l1 = "(saveToLocalStorage l)\<lparr>containerId := cid, container := hasElement p cid,
        emptyMessage := hasElement p (js ''lista-vacia-msg'')\<rparr>"
    have sv: "savedItems (saveToLocalStorage l) = Some (JSON_stringify (JArr xs))"
      using h(1) by (simp add: saveToLocalStorage_def)
    have i: "items (?l1\<lparr>items := JArr xs\<rparr>) = JArr xs" by simp
    from render_returns [OF i assms, of p] obtain l' where
      r: "render p (?l1\<lparr>items := JArr xs\<rparr>) = Inr l'" and il: "items l' = JArr xs"
      by auto
    have "init p cid (saveToLocalStorage l) = Inr l'"
      using h(2) sv rt r JSON_stringify_array_not_empty [of xs]
      by (simp add: init_def Let_def del: JSON_stringify.simps)
    then show ?thesis using sv il by (simp add: result_items_def)
  qed
  with rt show ?thesis by blast
qed

theorem serialization_round_trip_witness:
  "ListItem item_b \<and> ListItem item_a \<and>
   JSON_parse (JSON_stringify (JArr [item_b, item_a])) = Inr (JArr [item_b, item_a]) \<and>
   result_items (init platform0 (js ''lista-dinamica'')
      (saveToLocalStorage (DynamicList\<lparr>items := JArr [item_b, item_a]\<rparr>))) =
     Inr (JArr [item_b, item_a])"
proof -
  have h: "\<forall>x\<in>set [item_b, item_a]. ListItem x" using ListItem_a ListItem_b by simp
  have g: "items (DynamicList\<lparr>items := JArr [item_b, item_a]\<rparr>) = JArr [item_b, item_a] \<and>
      hasElement platform0 (js ''lista-dinamica'')"
    by (simp add: platform0_def)
  note th = serialization_round_trip [OF h, of "DynamicList\<lparr>items := JArr [item_b, item_a]\<rparr>"
      platform0 "js ''lista-dinamica''"]
  from th [THEN conjunct1] th [THEN conjunct2, rule_format, OF g, THEN conjunct2] ListItem_a ListItem_b
  show ?thesis by blast
qed

lemma stringify_item_a:
  "JSON_stringify (JArr [item_a]) =
     js ''[{\"id\":5,\"title\":\"a\",\"description\":\"\",\"value\":\"\",\"createdAt\":\"2025-01-01T00:00:00.000Z\"}]''"
  by (simp add: item_a_def JSON_quote_def quote_unit_def is_high_surrogate_def
      is_low_surrogate_def Number_toString_5 is_inf_def js_def)

end
